theory Spec2Isabelle
  imports Main "HOL-Library.Sublist"
begin

section \<open>Strings and character classes\<close>

text \<open>
  A JavaScript string is a sequence of code units.  The model uses \<open>string\<close>
  (a \<open>char list\<close>), so a text is a sequence of code units in the range 0..255
  (ASCII and Latin-1), and \<open>length\<close> is the JavaScript \<open>.length\<close>.  The character
  classes below are the ECMAScript ones restricted to that range.
\<close>

definition lower_letters :: string where
  "lower_letters = ''abcdefghijklmnopqrstuvwxyz''"

definition upper_letters :: string where
  "upper_letters = ''ABCDEFGHIJKLMNOPQRSTUVWXYZ''"

definition digit_chars :: string where
  "digit_chars = ''0123456789''"

text \<open>\<open>\w\<close> and the word test of \<open>\b\<close>: \<open>[A-Za-z0-9_]\<close>.\<close>

definition is_word :: "char \<Rightarrow> bool" where
  "is_word c = (c \<in> set (lower_letters @ upper_letters @ digit_chars @ ''_''))"

text \<open>\<open>\s\<close>: tab, line feed, vertical tab, form feed, carriage return, space and
  the no-break space.\<close>

definition is_space :: "char \<Rightarrow> bool" where
  "is_space c = (c \<in> set [CHR 0x09, CHR 0x0A, CHR 0x0B, CHR 0x0C, CHR 0x0D, CHR 0x20, CHR 0xA0])"

text \<open>Line terminators, which \<open>.\<close> does not match.\<close>

definition is_line_terminator :: "char \<Rightarrow> bool" where
  "is_line_terminator c = (c \<in> set [CHR 0x0A, CHR 0x0D])"

text \<open>
  Canonicalisation under the \<open>i\<close> flag (without \<open>u\<close>): a code unit is
  compared through its upper-case form.  Every character of the pattern catalogue is
  ASCII, and a code unit from 128 on never canonicalises to an ASCII one, so only the
  ASCII letters are folded here.
\<close>

definition canonicalize :: "char \<Rightarrow> char" where
  "canonicalize c = (case map_of (zip lower_letters upper_letters) c of
                       Some u \<Rightarrow> u | None \<Rightarrow> c)"

text \<open>
  \<open>String.prototype.toLowerCase\<close> on code units below 256: the ASCII capitals and the
  Latin-1 capitals 0xC0..0xDE (0xD7, the multiplication sign, apart) move up by 32.
  (On code units from 256 on it can change the length of a string and turn a non-word
  character into a letter; the statements about \<open>isNegated\<close> below are about the
  lower-cased context itself and use no property of this function.)
\<close>

definition latin1_upper :: string where
  "latin1_upper = [CHR 0xC0, CHR 0xC1, CHR 0xC2, CHR 0xC3, CHR 0xC4, CHR 0xC5, CHR 0xC6,
     CHR 0xC7, CHR 0xC8, CHR 0xC9, CHR 0xCA, CHR 0xCB, CHR 0xCC, CHR 0xCD, CHR 0xCE,
     CHR 0xCF, CHR 0xD0, CHR 0xD1, CHR 0xD2, CHR 0xD3, CHR 0xD4, CHR 0xD5, CHR 0xD6,
     CHR 0xD8, CHR 0xD9, CHR 0xDA, CHR 0xDB, CHR 0xDC, CHR 0xDD, CHR 0xDE]"

definition latin1_lower :: string where
  "latin1_lower = [CHR 0xE0, CHR 0xE1, CHR 0xE2, CHR 0xE3, CHR 0xE4, CHR 0xE5, CHR 0xE6,
     CHR 0xE7, CHR 0xE8, CHR 0xE9, CHR 0xEA, CHR 0xEB, CHR 0xEC, CHR 0xED, CHR 0xEE,
     CHR 0xEF, CHR 0xF0, CHR 0xF1, CHR 0xF2, CHR 0xF3, CHR 0xF4, CHR 0xF5, CHR 0xF6,
     CHR 0xF8, CHR 0xF9, CHR 0xFA, CHR 0xFB, CHR 0xFC, CHR 0xFD, CHR 0xFE]"

definition lower_char :: "char \<Rightarrow> char" where
  "lower_char c = (case map_of (zip (upper_letters @ latin1_upper)
                                     (lower_letters @ latin1_lower)) c of
                     Some l \<Rightarrow> l | None \<Rightarrow> c)"

definition toLowerCase :: "string \<Rightarrow> string" where
  "toLowerCase s = map lower_char s"

text \<open>\<open>text.substring(a, b)\<close> for \<open>a \<le> b\<close>.\<close>

definition substring :: "string \<Rightarrow> nat \<Rightarrow> nat \<Rightarrow> string" where
  "substring s a b = drop a (take b s)"

text \<open>\<open>String.prototype.trim\<close>: white space is stripped at both ends.\<close>

definition trim :: "string \<Rightarrow> string" where
  "trim s = rev (dropWhile is_space (rev (dropWhile is_space s)))"


section \<open>Regular expressions with backtracking\<close>

text \<open>
  The patterns of \<open>analyzer.js\<close> use literal characters under the \<open>i\<close> flag,
  \<open>\s\<close>, \<open>\b\<close>, \<open>.\<close>, the class \<open>[^.]\<close>, \<open>$\<close>, grouping, alternation and
  the greedy quantifiers \<open>?\<close>, \<open>*\<close>, \<open>+\<close> and \<open>{0,n}\<close>.
\<close>

datatype re =
    Eps
  | Chr char
  | NotChr char
  | Dot
  | Space
  | WordB
  | Eol
  | Seq re re
  | Alt re re
  | Opt re
  | Star re
  | Plus re
  | UpTo nat re

text \<open>
  A position in the subject is the code unit just before it (if any) and the rest of
  the subject from it on.
\<close>

type_synonym pos = "char option \<times> string"

definition word_before :: "pos \<Rightarrow> bool" where
  "word_before q = (case fst q of None \<Rightarrow> False | Some c \<Rightarrow> is_word c)"

definition word_after :: "pos \<Rightarrow> bool" where
  "word_after q = (case snd q of [] \<Rightarrow> False | c # _ \<Rightarrow> is_word c)"

text \<open>One code unit is consumed if it satisfies the test.\<close>

definition one :: "(char \<Rightarrow> bool) \<Rightarrow> pos \<Rightarrow> pos list" where
  "one P q = (case snd q of [] \<Rightarrow> [] | c # cs \<Rightarrow> if P c then [(Some c, cs)] else [])"

text \<open>
  ECMAScript's RepeatMatcher for a greedy quantifier with minimum 0: one more iteration
  is tried first, and an iteration that consumed nothing fails; then the continuation
  is tried at the current position.  \<open>m\<close> is the matcher of the quantified atom; the
  result lists the positions where the whole repetition can end, in the order in which
  backtracking reaches them.
\<close>

function repeat_star :: "(pos \<Rightarrow> pos list) \<Rightarrow> pos \<Rightarrow> pos list" where
  "repeat_star m q =
     concat (map (\<lambda>q'. if length (snd q') < length (snd q) then repeat_star m q' else [])
                 (m q)) @ [q]"
  by pat_completeness auto
termination
  by (relation "measure (\<lambda>(m, q). length (snd q))") auto

declare repeat_star.simps [simp del]

text \<open>The same with a maximum number of iterations (\<open>{0,n}\<close>).\<close>

fun repeat_upto :: "nat \<Rightarrow> (pos \<Rightarrow> pos list) \<Rightarrow> pos \<Rightarrow> pos list" where
  "repeat_upto 0 m q = [q]"
| "repeat_upto (Suc n) m q =
     concat (map (\<lambda>q'. if length (snd q') < length (snd q) then repeat_upto n m q' else [])
                 (m q)) @ [q]"

text \<open>
  \<open>matches r q\<close> lists the end positions of the matches of \<open>r\<close> that start at \<open>q\<close>,
  in backtracking order: the head is the match that the engine reports.
\<close>

fun matches :: "re \<Rightarrow> pos \<Rightarrow> pos list" where
  "matches Eps q = [q]"
| "matches (Chr c) q = one (\<lambda>x. canonicalize x = canonicalize c) q"
| "matches (NotChr c) q = one (\<lambda>x. canonicalize x \<noteq> canonicalize c) q"
| "matches Dot q = one (\<lambda>x. \<not> is_line_terminator x) q"
| "matches Space q = one is_space q"
| "matches WordB q = (if word_before q \<noteq> word_after q then [q] else [])"
| "matches Eol q = (if snd q = [] then [q] else [])"
| "matches (Seq a b) q = concat (map (matches b) (matches a q))"
| "matches (Alt a b) q = matches a q @ matches b q"
| "matches (Opt a) q = repeat_upto 1 (matches a) q"
| "matches (Star a) q = repeat_star (matches a) q"
| "matches (Plus a) q = concat (map (repeat_star (matches a)) (matches a q))"
| "matches (UpTo n a) q = repeat_upto n (matches a) q"

text \<open>
  \<open>RegExp.prototype.exec\<close> from a start position: the first position at or after it
  where the pattern matches, with the start and the end of that match.
\<close>

fun search :: "re \<Rightarrow> char option \<Rightarrow> string \<Rightarrow> (pos \<times> pos) option" where
  "search r p [] = (case matches r (p, []) of [] \<Rightarrow> None | e # _ \<Rightarrow> Some ((p, []), e))"
| "search r p (c # cs) =
     (case matches r (p, c # cs) of
        [] \<Rightarrow> search r (Some c) cs
      | e # _ \<Rightarrow> Some ((p, c # cs), e))"

text \<open>\<open>pattern.test(s)\<close> and \<open>s.match(pattern)\<close> for a pattern without the \<open>g\<close> flag.\<close>

definition test :: "re \<Rightarrow> string \<Rightarrow> bool" where
  "test r s = (search r None s \<noteq> None)"

text \<open>Writing patterns: a sequence of parts, and a literal word.\<close>

definition seqs :: "re list \<Rightarrow> re" where
  "seqs rs = foldr Seq rs Eps"

definition lit :: "string \<Rightarrow> re" where
  "lit s = seqs (map Chr s)"

text \<open>\<open>\s+\<close>\<close>

definition ws :: re where
  "ws = Plus Space"

text \<open>A pattern \<open>\bw1\s+w2\s+...\s+wn\b\<close> of literal words.\<close>

definition phrase :: "string list \<Rightarrow> re" where
  "phrase wds = seqs (WordB # (case wds of [] \<Rightarrow> []
                    | w # rest \<Rightarrow> lit w # concat (map (\<lambda>x. [ws, lit x]) rest)) @ [WordB])"


section \<open>The analyzer (\<open>analyzer.js\<close>)\<close>

subsection \<open>The pattern catalogue\<close>

text \<open>\<open>U\.?S\.?\<close>\<close>

definition us :: re where
  "us = seqs [Chr CHR ''U'', Opt (Chr CHR ''.''), Chr CHR ''S'', Opt (Chr CHR ''.'')]"

text \<open>\<open>D\.?O\.?D\.?\<close>\<close>

definition dod :: re where
  "dod = seqs [Chr CHR ''D'', Opt (Chr CHR ''.''), Chr CHR ''O'', Opt (Chr CHR ''.''),
               Chr CHR ''D'', Opt (Chr CHR ''.'')]"

text \<open>\<open>(a\s+)?\<close>\<close>

definition opt_a :: re where
  "opt_a = Opt (Seq (Chr CHR ''a'') ws)"

definition STRONG_POSITIVE_PATTERNS :: "re list" where
  "STRONG_POSITIVE_PATTERNS = [
     phrase [''H1B'', ''sponsorship''],
     phrase [''H1B'', ''visa'', ''sponsorship''],
     phrase [''H-1B'', ''sponsorship''],
     phrase [''visa'', ''sponsorship''],
     phrase [''work'', ''visa'', ''sponsorship''],
     phrase [''employment'', ''visa'', ''sponsorship''],
     phrase [''sponsor'', ''H1B''],
     phrase [''sponsor'', ''visa''],
     phrase [''provide'', ''sponsorship''],
     phrase [''sponsorship'', ''available''],
     phrase [''sponsorship'', ''provided''],
     phrase [''offers'', ''sponsorship''],
     phrase [''willing'', ''to'', ''sponsor''],
     phrase [''will'', ''sponsor''],
     phrase [''can'', ''sponsor''],
     phrase [''sponsor'', ''for'', ''international'', ''candidates''],
     phrase [''international'', ''sponsorship''],
     phrase [''work'', ''authorization'', ''sponsorship''],
     phrase [''employment'', ''authorization'', ''sponsorship''],
     phrase [''TN'', ''visa''],
     phrase [''E-3'', ''visa''],
     phrase [''O-1'', ''visa''],
     phrase [''L-1'', ''visa''],
     phrase [''J-1'', ''visa''],
     phrase [''OPT'', ''to'', ''H1B''],
     phrase [''pleased'', ''to'', ''offer'', ''visa'', ''sponsorship''],
     phrase [''pleased'', ''to'', ''offer'', ''sponsorship''],
     phrase [''offer'', ''visa'', ''sponsorship''],
     phrase [''offer'', ''sponsorship'']]"

definition MODERATE_POSITIVE_PATTERNS :: "re list" where
  "MODERATE_POSITIVE_PATTERNS = [
     phrase [''open'', ''to'', ''international'', ''candidates''],
     phrase [''international'', ''applicants'', ''welcome''],
     phrase [''global'', ''talent''],
     phrase [''diverse'', ''candidates''],
     phrase [''international'', ''experience'', ''preferred''],
     phrase [''relocation'', ''assistance''],
     phrase [''immigration'', ''support'']]"

definition STRONG_NEGATIVE_PATTERNS :: "re list" where
  "STRONG_NEGATIVE_PATTERNS = [
     seqs [WordB, us, ws, lit ''citizen'', Opt (Chr CHR ''s''), ws, lit ''only'', WordB],
     seqs [WordB, us, ws, lit ''citizenship'', ws, lit ''required'', WordB],
     seqs [WordB, lit ''must'', ws, lit ''be'', ws, opt_a, us, ws, lit ''citizen'', WordB],
     seqs [WordB, lit ''must'', ws, lit ''be'', ws, opt_a, lit ''United'', ws,
           lit ''States'', ws, lit ''citizen'', WordB],
     seqs [WordB, us, ws, lit ''citizenship'', ws, lit ''only'', WordB],
     phrase [''no'', ''sponsorship''],
     phrase [''does'', ''not'', ''sponsor''],
     phrase [''cannot'', ''sponsor''],
     phrase [[CHR ''c'', CHR ''a'', CHR ''n'', CHR 0x27, CHR ''t''], ''sponsor''],
     phrase [''unable'', ''to'', ''sponsor''],
     seqs [WordB, lit ''unable'', ws, lit ''to'', ws, lit ''sponsor'', Star Dot,
           lit ''work'', ws, lit ''visa'', Opt (Chr CHR ''s''), WordB],
     phrase [''not'', ''sponsoring''],
     phrase [''sponsorship'', ''not'', ''available''],
     phrase [''no'', ''visa'', ''sponsorship''],
     phrase [''must'', ''have'', ''work'', ''authorization''],
     phrase [''no'', ''visa'', ''support''],
     phrase [''will'', ''not'', ''sponsor''],
     phrase [''sponsorship'', ''not'', ''provided''],
     seqs [WordB, us, ws, lit ''work'', ws, lit ''authorization'', ws, lit ''required'', WordB],
     phrase [''citizenship'', ''required''],
     seqs [WordB, us, ws, lit ''citizenship'', ws, lit ''mandatory'', WordB],
     phrase [''security'', ''clearance'', ''required''],
     phrase [''DOD'', ''security'', ''clearance''],
     seqs [WordB, dod, ws, lit ''security'', ws, lit ''clearance'', WordB],
     seqs [WordB, lit ''eligible'', ws, lit ''to'', ws, lit ''obtain'', ws, opt_a,
           Alt (lit ''DOD'') (Alt dod (lit ''security'')), ws, lit ''clearance'', WordB],
     phrase [''must'', ''be'', ''eligible'', ''for'', ''security'', ''clearance''],
     phrase [''must'', ''obtain'', ''security'', ''clearance''],
     phrase [''able'', ''to'', ''obtain'', ''security'', ''clearance''],
     phrase [''clearance'', ''eligible''],
     phrase [''security'', ''clearance'', ''eligible''],
     seqs [WordB, lit ''must'', ws, lit ''possess'', ws, us, ws, lit ''citizenship'', WordB],
     seqs [WordB, lit ''ITAR'', ws, lit ''requirement'', Opt (Chr CHR ''s''), WordB],
     phrase [''ITAR'', ''compliance''],
     phrase [''ITAR'', ''eligible''],
     phrase [''must'', ''be'', ''ITAR'', ''eligible''],
     seqs [WordB, us, ws, lit ''citizen'', ws, lit ''or'', ws, lit ''national'', WordB],
     seqs [WordB, us, ws, lit ''lawful'', ws, lit ''permanent'', ws, lit ''resident'', WordB],
     phrase [''green'', ''card'', ''holder''],
     seqs [WordB, lit ''export'', ws, lit ''control'', ws, lit ''regulation'',
           Opt (Chr CHR ''s''), WordB],
     phrase [''Department'', ''of'', ''State'', ''authorization'']]"

definition MODERATE_NEGATIVE_PATTERNS :: "re list" where
  "MODERATE_NEGATIVE_PATTERNS = [
     phrase [''no'', ''relocation'', ''assistance''],
     phrase [''local'', ''candidates'', ''only'']]"

text \<open>The negation cues end in \<open>\s+\<close> and have no closing \<open>\b\<close>.\<close>

definition cue :: "string list \<Rightarrow> re" where
  "cue wds = seqs (WordB # (case wds of [] \<Rightarrow> []
                 | w # rest \<Rightarrow> lit w # concat (map (\<lambda>x. [ws, lit x]) rest)) @ [ws])"

definition NEGATION_PATTERNS :: "re list" where
  "NEGATION_PATTERNS = [
     cue [''no''],
     cue [''not''],
     cue [[CHR ''d'', CHR ''o'', CHR ''e'', CHR ''s'', CHR ''n'', CHR 0x27, CHR ''t'']],
     cue [''does'', ''not''],
     cue [''cannot''],
     cue [[CHR ''c'', CHR ''a'', CHR ''n'', CHR 0x27, CHR ''t'']],
     cue [''will'', ''not''],
     cue [[CHR ''w'', CHR ''o'', CHR ''n'', CHR 0x27, CHR ''t'']]]"

subsection \<open>\<open>isNegated\<close>\<close>

text \<open>
  \<open>new RegExp(negPattern.source + '[^.]{0,20}$', 'i')\<close>: the cue, then at most twenty
  code units other than a full stop, then the end of the context.
\<close>

definition near_end :: "re \<Rightarrow> re" where
  "near_end neg = Seq neg (Seq (UpTo 20 (NotChr CHR ''.'')) Eol)"

definition contextBefore :: "string \<Rightarrow> nat \<Rightarrow> string" where
  "contextBefore txt matchIndex = toLowerCase (substring txt (matchIndex - 50) matchIndex)"

text \<open>The loop over the cues returns at the first one that passes both tests.\<close>

fun negated_by :: "re list \<Rightarrow> string \<Rightarrow> bool" where
  "negated_by [] ctx = False"
| "negated_by (negPattern # rest) ctx =
     (if test negPattern ctx \<and> test (near_end negPattern) ctx then True
      else negated_by rest ctx)"

definition isNegated :: "string \<Rightarrow> nat \<Rightarrow> nat \<Rightarrow> bool" where
  "isNegated txt matchIndex matchLength =
     negated_by NEGATION_PATTERNS (contextBefore txt matchIndex)"

subsection \<open>\<open>findMatches\<close>\<close>

record rmatch =
  m_text :: string
  m_index :: nat
  m_length :: nat

text \<open>
  The \<open>while\<close> loop over \<open>globalPattern.exec(text)\<close>.  \<open>p\<close> and \<open>s\<close> are the
  position \<open>lastIndex\<close> in \<open>txt\<close>; a match sets \<open>lastIndex\<close> to its end.  When
  \<open>lastIndex\<close> does not advance, the same (empty) match is found again without end:
  the loop does not return, which is the value \<open>None\<close>.
\<close>

function find_loop :: "re \<Rightarrow> string \<Rightarrow> char option \<Rightarrow> string \<Rightarrow> rmatch list option" where
  "find_loop r txt p s =
     (case search r p s of
        None \<Rightarrow> Some []
      | Some (b, e) \<Rightarrow>
          if length (snd e) < length s
          then map_option
                 (\<lambda>ms. \<lparr>m_text = take (length (snd b) - length (snd e)) (snd b),
                         m_index = length txt - length (snd b),
                         m_length = length (snd b) - length (snd e)\<rparr> # ms)
                 (find_loop r txt (fst e) (snd e))
          else None)"
  by pat_completeness auto
termination
  by (relation "measure (\<lambda>(r, txt, p, s). length s)") auto

declare find_loop.simps [simp del]

definition findMatches :: "re \<Rightarrow> string \<Rightarrow> rmatch list option" where
  "findMatches pattern txt = find_loop pattern txt None txt"

subsection \<open>\<open>analyze\<close>\<close>

text \<open>The values a caller can pass for \<open>jobDescription\<close>.\<close>

datatype js_value =
    JUndefined
  | JNull
  | JBoolean bool
  | JNumber int
  | JString string
  | JObject

datatype status = Yes | No | Unclear

datatype confidence = Low | Medium | High

record details =
  strongPositive :: "string list"
  moderatePositive :: "string list"
  strongNegative :: "string list"
  moderateNegative :: "string list"

record verdict =
  status :: status
  score :: int
  confidence :: confidence
  matchedKeywords :: "string list"
  message :: string
  details :: "details option"

text \<open>The two loops over a positive tier: matches that are not negated are pushed.\<close>

fun scan_positive :: "re list \<Rightarrow> string \<Rightarrow> string list option" where
  "scan_positive [] txt = Some []"
| "scan_positive (pattern # rest) txt =
     (case findMatches pattern txt of
        None \<Rightarrow> None
      | Some ms \<Rightarrow>
          (case scan_positive rest txt of
             None \<Rightarrow> None
           | Some others \<Rightarrow>
               Some (map m_text (filter (\<lambda>m. \<not> isNegated txt (m_index m) (m_length m)) ms)
                     @ others)))"

text \<open>The two loops over a negative tier: every match is pushed.\<close>

fun scan_negative :: "re list \<Rightarrow> string \<Rightarrow> string list option" where
  "scan_negative [] txt = Some []"
| "scan_negative (pattern # rest) txt =
     (case findMatches pattern txt of
        None \<Rightarrow> None
      | Some ms \<Rightarrow>
          (case scan_negative rest txt of
             None \<Rightarrow> None
           | Some others \<Rightarrow> Some (map m_text ms @ others)))"

text \<open>\<open>[...new Set(xs)]\<close>: a value is kept where it is first inserted.\<close>

definition set_add :: "string list \<Rightarrow> string \<Rightarrow> string list" where
  "set_add seen x = (if x \<in> set seen then seen else seen @ [x])"

definition new_Set :: "string list \<Rightarrow> string list" where
  "new_Set xs = foldl set_add [] xs"

text \<open>The decision and the returned object, from the four lists.\<close>

definition decide :: "details \<Rightarrow> status \<times> string \<times> confidence" where
  "decide d =
     (if length (strongPositive d) > 0 then (Yes, ''Sponsorship Available'', High)
      else if length (strongNegative d) > 0 then (No, ''No Sponsorship'', High)
      else if length (moderatePositive d) > 0 then (Yes, ''Sponsorship Available'', Medium)
      else if length (moderateNegative d) > 0 then (No, ''No Sponsorship'', Medium)
      else (Yes, ''Sponsorship Available'', Low))"

definition score_of :: "details \<Rightarrow> int" where
  "score_of d =
     (if length (strongPositive d) > 0 then 3
      else if length (moderatePositive d) > 0 then 1
      else if length (strongNegative d) > 0 then - 3
      else if length (moderateNegative d) > 0 then - 1
      else 0)"

definition result :: "details \<Rightarrow> verdict" where
  "result d =
     (case decide d of (st, msg, conf) \<Rightarrow>
        \<lparr>status = st, score = score_of d, confidence = conf,
         matchedKeywords = new_Set (strongPositive d @ moderatePositive d
                                    @ strongNegative d @ moderateNegative d),
         message = msg, details = Some d\<rparr>)"

definition no_description :: verdict where
  "no_description =
     \<lparr>status = Unclear, score = 0, confidence = Low, matchedKeywords = [],
      message = ''No job description found'', details = None\<rparr>"

definition scan :: "string \<Rightarrow> details option" where
  "scan txt =
     (case scan_positive STRONG_POSITIVE_PATTERNS txt of None \<Rightarrow> None | Some sp \<Rightarrow>
     (case scan_positive MODERATE_POSITIVE_PATTERNS txt of None \<Rightarrow> None | Some mp \<Rightarrow>
     (case scan_negative STRONG_NEGATIVE_PATTERNS txt of None \<Rightarrow> None | Some sn \<Rightarrow>
     (case scan_negative MODERATE_NEGATIVE_PATTERNS txt of None \<Rightarrow> None | Some mn \<Rightarrow>
        Some \<lparr>strongPositive = sp, moderatePositive = mp,
              strongNegative = sn, moderateNegative = mn\<rparr>))))"

text \<open>
  \<open>!jobDescription || typeof jobDescription !== 'string'\<close> holds for every value that
  is not a string and for the empty string.  \<open>None\<close>: the call does not return.
\<close>

fun analyze :: "js_value \<Rightarrow> verdict option" where
  "analyze (JString txt) =
     (if txt = [] then Some no_description else map_option result (scan txt))"
| "analyze v = Some no_description"


section \<open>The highlighter's choice of phrase (\<open>highlighter.js\<close>)\<close>

text \<open>
  \<open>Highlighter.highlight\<close> reads \<open>analysisResult.details\<close> only when the status is
  \<open>'no'\<close>; on an object without \<open>details\<close> that read raises a TypeError.  The phrase
  that \<open>highlightSentences\<close> then looks for is \<open>matchedPhrases[0]\<close>, and
  \<open>highlightSentences\<close> is not called on an empty list.
\<close>

datatype js_error = TypeError

definition matchedPhrases :: "details \<Rightarrow> string list" where
  "matchedPhrases d =
     (if length (strongNegative d) > 0 then strongNegative d else moderateNegative d)"

definition firstMatch :: "verdict \<Rightarrow> js_error + string option" where
  "firstMatch analysisResult =
     (if status analysisResult \<noteq> No then Inr None
      else case details analysisResult of
             None \<Rightarrow> Inl TypeError
           | Some d \<Rightarrow> Inr (case matchedPhrases d of [] \<Rightarrow> None | ph # _ \<Rightarrow> Some ph))"


section \<open>The page monitor (\<open>content.js\<close>)\<close>

subsection \<open>\<open>hashJobDescription\<close>\<close>

text \<open>A number converted to a string, as in \<open>'|' + text.length\<close>: decimal digits.\<close>

function decimal :: "nat \<Rightarrow> string" where
  "decimal n = (if n < 10 then [digit_chars ! n]
                else decimal (n div 10) @ [digit_chars ! (n mod 10)])"
  by pat_completeness auto
termination
  by (relation "measure (\<lambda>n. n)") auto

declare decimal.simps [simp del]

text \<open>\<open>!text\<close> holds for \<open>null\<close> and for the empty string.\<close>

definition hashJobDescription :: "string option \<Rightarrow> string option" where
  "hashJobDescription t =
     (case t of
        None \<Rightarrow> None
      | Some txt \<Rightarrow>
          if txt = [] then None
          else Some (trim (substring txt 0 200) @ ''|'' @ decimal (length txt)))"

subsection \<open>State, page and effects\<close>

text \<open>The module variables of the content script.\<close>

record monitor =
  currentJobId :: "string option"
  currentJobDescriptionHash :: "string option"
  isProcessing :: bool

text \<open>
  What one call reads from the document: \<open>isLinkedInJobPage()\<close>, \<open>extractJobId()\<close>,
  \<open>extractJobDescription()\<close> and whether \<open>document.getElementById('h1b-sponsor-badge')\<close>
  finds the badge.
\<close>

record page =
  isLinkedInJobPage :: bool
  jobId :: "string option"
  description :: "string option"
  badge :: bool

text \<open>
  The calls to the collaborators and the timers that a call sets:
  \<open>setTimeout(() => processJobPage(force), delay)\<close>, the badge manager, and the
  highlighter (\<open>setTimeout(() => Highlighter.highlight(result, description), delay)\<close>).
\<close>

datatype effect =
    SetTimeout_processJobPage bool nat
  | UpdateBadge verdict
  | InjectBadge verdict
  | SetTimeout_highlight verdict string nat
  | RemoveHighlights
  | RemoveBadge

subsection \<open>\<open>processJobPage\<close>\<close>

text \<open>\<open>!description\<close>\<close>

definition no_text :: "string option \<Rightarrow> bool" where
  "no_text d = (case d of None \<Rightarrow> True | Some txt \<Rightarrow> txt = [])"

text \<open>
  The result is the new module state and the effects, in order.  \<open>None\<close>: the call to
  the analyzer does not return.  The analyzer is called on a description that passed
  \<open>!description\<close>, a non-empty string (the case \<open>None\<close> next to it is never reached).
\<close>

definition processJobPage :: "bool \<Rightarrow> monitor \<Rightarrow> page \<Rightarrow> (monitor \<times> effect list) option" where
  "processJobPage force st pg =
     (if isProcessing st \<and> \<not> force then Some (st, [])
      else if \<not> isLinkedInJobPage pg then Some (st, [])
      else
        let descriptionHash = hashJobDescription (description pg);
            jobIdChanged = (jobId pg \<noteq> currentJobId st);
            descriptionChanged = (descriptionHash \<noteq> currentJobDescriptionHash st)
        in
          if \<not> force \<and> \<not> jobIdChanged \<and> \<not> descriptionChanged \<and> badge pg then Some (st, [])
          else if no_text (description pg) then
            (if \<not> force \<and> currentJobId st = jobId pg then Some (st, [])
             else Some (st, [SetTimeout_processJobPage force 300]))
          else
            (case description pg of
               None \<Rightarrow> Some (st, [])
             | Some txt \<Rightarrow>
                 (case analyze (JString txt) of
                    None \<Rightarrow> None
                  | Some analysisResult \<Rightarrow>
                      Some (\<lparr>currentJobId = jobId pg,
                             currentJobDescriptionHash = descriptionHash,
                             isProcessing = False\<rparr>,
                            [if badge pg then UpdateBadge analysisResult
                             else InjectBadge analysisResult,
                             if status analysisResult = No
                             then SetTimeout_highlight analysisResult txt 100
                             else RemoveHighlights]))))"

subsection \<open>\<open>handleUrlChange\<close> and \<open>checkForJobChange\<close>\<close>

definition handleUrlChange :: "monitor \<Rightarrow> page \<Rightarrow> monitor \<times> effect list" where
  "handleUrlChange st pg =
     (if jobId pg \<noteq> currentJobId st
      then (st\<lparr>currentJobId := None, currentJobDescriptionHash := None\<rparr>,
            [RemoveBadge, RemoveHighlights, SetTimeout_processJobPage True 200])
      else (st, []))"

text \<open>After \<open>BadgeManager.removeBadge()\<close> the document has no badge.\<close>

definition checkForJobChange :: "monitor \<Rightarrow> page \<Rightarrow> (monitor \<times> effect list) option" where
  "checkForJobChange st pg =
     (if isProcessing st then Some (st, [])
      else
        let descriptionHash = hashJobDescription (description pg) in
          if jobId pg \<noteq> currentJobId st \<or> descriptionHash \<noteq> currentJobDescriptionHash st
          then
            (if jobId pg \<noteq> currentJobId st
             then map_option (\<lambda>(st', es). (st', RemoveBadge # RemoveHighlights # es))
                    (processJobPage True
                       (st\<lparr>currentJobId := None, currentJobDescriptionHash := None\<rparr>)
                       (pg\<lparr>badge := False\<rparr>))
             else processJobPage True st pg)
          else Some (st, []))"

subsection \<open>The retry timer\<close>




section \<open>Notions used in the statements\<close>

text \<open>The least number of code units that a match of a pattern consumes.\<close>

fun min_len :: "re \<Rightarrow> nat" where
  "min_len Eps = 0"
| "min_len (Chr c) = 1"
| "min_len (NotChr c) = 1"
| "min_len Dot = 1"
| "min_len Space = 1"
| "min_len WordB = 0"
| "min_len Eol = 0"
| "min_len (Seq a b) = min_len a + min_len b"
| "min_len (Alt a b) = min (min_len a) (min_len b)"
| "min_len (Opt a) = 0"
| "min_len (Star a) = 0"
| "min_len (Plus a) = min_len a"
| "min_len (UpTo n a) = 0"

text \<open>The end positions of all matches of a pattern that start anywhere in a string.\<close>

fun match_ends :: "re \<Rightarrow> char option \<Rightarrow> string \<Rightarrow> pos list" where
  "match_ends r p [] = matches r (p, [])"
| "match_ends r p (c # cs) = matches r (p, c # cs) @ match_ends r (Some c) cs"

text \<open>
  A negation cue occurs in the context and ends at most \<open>n\<close> code units before the end
  of the context (the start of the match).
\<close>

definition cue_within :: "nat \<Rightarrow> string \<Rightarrow> bool" where
  "cue_within n ctx =
     (\<exists>neg \<in> set NEGATION_PATTERNS. \<exists>e \<in> set (match_ends neg None ctx). length (snd e) \<le> n)"

text \<open>The same, and no full stop lies between the cue and the end of the context.\<close>

definition cue_in_sentence :: "nat \<Rightarrow> string \<Rightarrow> bool" where
  "cue_in_sentence n ctx =
     (\<exists>neg \<in> set NEGATION_PATTERNS. \<exists>e \<in> set (match_ends neg None ctx).
        length (snd e) \<le> n \<and> CHR ''.'' \<notin> set (snd e))"

text \<open>The matches of a pattern that survive the negation check, and their texts.\<close>

definition surviving :: "string \<Rightarrow> rmatch list \<Rightarrow> string list" where
  "surviving txt ms =
     map m_text (filter (\<lambda>m. \<not> isNegated txt (m_index m) (m_length m)) ms)"

text \<open>Each pattern of a list with the matches that \<open>findMatches\<close> returns for it.\<close>

definition found :: "re list \<Rightarrow> string \<Rightarrow> rmatch list list \<Rightarrow> bool" where
  "found ps txt mss = list_all2 (\<lambda>p ms. findMatches p txt = Some ms) ps mss"

text \<open>
  A list without its repetitions, the first occurrence of each element kept in place:
  the element at \<open>i\<close> stays if it does not occur before \<open>i\<close>.
\<close>

definition first_occurrences :: "'a list \<Rightarrow> 'a list" where
  "first_occurrences xs =
     map (\<lambda>i. xs ! i) (filter (\<lambda>i. xs ! i \<notin> set (take i xs)) [0..<length xs])"

text \<open>An input on which \<open>analyze\<close> gets past its guard: a non-empty string.\<close>

fun usable :: "js_value \<Rightarrow> bool" where
  "usable (JString txt) = (txt \<noteq> [])"
| "usable v = False"

text \<open>A call classified the description: it handed a verdict to the badge manager.\<close>

fun is_classification :: "effect \<Rightarrow> bool" where
  "is_classification (UpdateBadge v) = True"
| "is_classification (InjectBadge v) = True"
| "is_classification e = False"

definition reclassified :: "(monitor \<times> effect list) option \<Rightarrow> bool" where
  "reclassified out = (case out of None \<Rightarrow> False | Some (st, es) \<Rightarrow> list_ex is_classification es)"

text \<open>What the unforced call compares: job id, fingerprint, presence of the badge.\<close>

definition changed :: "monitor \<Rightarrow> page \<Rightarrow> bool" where
  "changed st pg =
     (jobId pg \<noteq> currentJobId st
      \<or> hashJobDescription (description pg) \<noteq> currentJobDescriptionHash st
      \<or> \<not> badge pg)"



text \<open>Five low bits that encode one of the 26 letters (1 to 26).\<close>

definition letter5 :: "bool \<Rightarrow> bool \<Rightarrow> bool \<Rightarrow> bool \<Rightarrow> bool \<Rightarrow> bool" where
  "letter5 b0 b1 b2 b3 b4 =
     ((b0 \<or> b1 \<or> b2 \<or> b3 \<or> b4) \<and> \<not> (b4 \<and> b3 \<and> (b2 \<or> (b1 \<and> b0))))"


section \<open>Character classes on the bits of a code unit\<close>

text \<open>
  The tests of the first section, decided on the eight bits of the code unit.  They
  are used when a definition is evaluated.
\<close>

lemma is_word_bits [code]:
  "is_word (Char b0 b1 b2 b3 b4 b5 b6 b7) =
     (\<not> b7 \<and> (if b6 then letter5 b0 b1 b2 b3 b4 \<or> (\<not> b5 \<and> b4 \<and> b3 \<and> b2 \<and> b1 \<and> b0)
               else b5 \<and> b4 \<and> \<not> (b3 \<and> (b2 \<or> b1))))"
  by (cases b0; cases b1; cases b2; cases b3; cases b4; cases b5; cases b6; cases b7;
      simp add: is_word_def letter5_def lower_letters_def upper_letters_def digit_chars_def)

lemma is_space_bits [code]:
  "is_space (Char b0 b1 b2 b3 b4 b5 b6 b7) =
     (if b5 then \<not> b6 \<and> \<not> b4 \<and> \<not> b3 \<and> \<not> b2 \<and> \<not> b1 \<and> \<not> b0
      else \<not> b7 \<and> \<not> b6 \<and> \<not> b4 \<and> b3 \<and> ((\<not> b2 \<and> (b1 \<or> b0)) \<or> (b2 \<and> \<not> b1)))"
  by (cases b0; cases b1; cases b2; cases b3; cases b4; cases b5; cases b6; cases b7;
      simp add: is_space_def)

lemma canonicalize_bits [code]:
  "canonicalize (Char b0 b1 b2 b3 b4 b5 b6 b7) =
     (if \<not> b7 \<and> b6 \<and> b5 \<and> letter5 b0 b1 b2 b3 b4 then Char b0 b1 b2 b3 b4 False b6 b7
      else Char b0 b1 b2 b3 b4 b5 b6 b7)"
  by (cases b0; cases b1; cases b2; cases b3; cases b4; cases b5; cases b6; cases b7;
      simp add: canonicalize_def letter5_def lower_letters_def upper_letters_def)


section \<open>Matches consume input\<close>

lemma one_suffix: "e \<in> set (one P q) \<Longrightarrow> suffix (snd e) (snd q) \<and> length (snd e) + 1 = length (snd q)"
  by (cases q) (auto simp: one_def suffix_def split: list.splits if_splits)

lemma repeat_star_suffix:
  "(\<forall>q e. e \<in> set (m q) \<longrightarrow> suffix (snd e) (snd q)) \<Longrightarrow>
   e \<in> set (repeat_star m q) \<Longrightarrow> suffix (snd e) (snd q)"
proof (induction m q arbitrary: e rule: repeat_star.induct)
  case (1 m q)
  from "1.prems"(2)
  have "e = q \<or> (\<exists>q' \<in> set (m q). length (snd q') < length (snd q) \<and> e \<in> set (repeat_star m q'))"
    by (subst (asm) repeat_star.simps) (auto split: if_splits)
  then show ?case
  proof
    assume "e = q" then show ?thesis by simp
  next
    assume "\<exists>q' \<in> set (m q). length (snd q') < length (snd q) \<and> e \<in> set (repeat_star m q')"
    then obtain q' where q': "q' \<in> set (m q)" "length (snd q') < length (snd q)"
      "e \<in> set (repeat_star m q')"
      by blast
    have "suffix (snd e) (snd q')" using "1.IH" [OF q'(1) q'(2) "1.prems"(1) q'(3)] .
    moreover have "suffix (snd q') (snd q)" using q'(1) "1.prems"(1) by blast
    ultimately show ?thesis by (rule suffix_order.trans)
  qed
qed

lemma repeat_upto_suffix:
  "(\<forall>q e. e \<in> set (m q) \<longrightarrow> suffix (snd e) (snd q)) \<Longrightarrow>
   e \<in> set (repeat_upto n m q) \<Longrightarrow> suffix (snd e) (snd q)"
proof (induction n arbitrary: q e)
  case 0
  then show ?case by simp
next
  case (Suc n)
  from Suc.prems(2) have "e = q \<or> (\<exists>q' \<in> set (m q). e \<in> set (repeat_upto n m q'))"
    by (auto split: if_splits)
  then show ?case
  proof
    assume "e = q" then show ?thesis by simp
  next
    assume "\<exists>q' \<in> set (m q). e \<in> set (repeat_upto n m q')"
    then obtain q' where q': "q' \<in> set (m q)" "e \<in> set (repeat_upto n m q')" by blast
    have "suffix (snd e) (snd q')" using Suc.IH [OF Suc.prems(1) q'(2)] .
    moreover have "suffix (snd q') (snd q)" using q'(1) Suc.prems(1) by blast
    ultimately show ?thesis by (rule suffix_order.trans)
  qed
qed

lemma matches_suffix: "e \<in> set (matches r q) \<Longrightarrow> suffix (snd e) (snd q)"
proof (induction r arbitrary: q e)
  case (Seq a b)
  from Seq.prems obtain q' where "q' \<in> set (matches a q)" "e \<in> set (matches b q')" by auto
  then show ?case using Seq.IH(1) [of q' q] Seq.IH(2) [of e q'] by (blast intro: suffix_order.trans)
next
  case (Alt a b)
  from Alt.prems have "e \<in> set (matches a q) \<or> e \<in> set (matches b q)" by simp
  then show ?case using Alt.IH(1) [of e q] Alt.IH(2) [of e q] by blast
next
  case (Plus a)
  from Plus.prems obtain q' where "q' \<in> set (matches a q)" "e \<in> set (repeat_star (matches a) q')"
    by auto
  then show ?case
    using repeat_star_suffix [of "matches a" e q'] Plus.IH by (blast intro: suffix_order.trans)
next
  case (Star a)
  then show ?case using repeat_star_suffix [of "matches a" e q] by auto
next
  case (Opt a)
  then show ?case using repeat_upto_suffix [of "matches a" e 1 q] by auto
next
  case (UpTo n a)
  then show ?case using repeat_upto_suffix [of "matches a" e n q] by auto
next
  case Eps then show ?case by simp
next
  case (Chr c) then show ?case using one_suffix by simp
next
  case (NotChr c) then show ?case using one_suffix by simp
next
  case Dot then show ?case using one_suffix by simp
next
  case Space then show ?case using one_suffix by simp
next
  case WordB then show ?case by (simp split: if_splits)
next
  case Eol then show ?case by (simp split: if_splits)
qed

lemma matches_length: "e \<in> set (matches r q) \<Longrightarrow> length (snd e) \<le> length (snd q)"
  by (rule suffix_length_le) (rule matches_suffix)

lemma matches_min_len: "e \<in> set (matches r q) \<Longrightarrow> length (snd e) + min_len r \<le> length (snd q)"
proof (induction r arbitrary: q e)
  case (Seq a b)
  from Seq.prems obtain q' where "q' \<in> set (matches a q)" "e \<in> set (matches b q')" by auto
  then show ?case using Seq.IH(1) [of q' q] Seq.IH(2) [of e q'] by simp
next
  case (Alt a b)
  from Alt.prems have "e \<in> set (matches a q) \<or> e \<in> set (matches b q)" by simp
  then show ?case using Alt.IH(1) [of e q] Alt.IH(2) [of e q] by (auto simp: min_def)
next
  case (Plus a)
  from Plus.prems obtain q' where q': "q' \<in> set (matches a q)" "e \<in> set (repeat_star (matches a) q')"
    by auto
  have "suffix (snd e) (snd q')"
    using repeat_star_suffix [of "matches a" e q'] matches_suffix q'(2) by blast
  then have "length (snd e) \<le> length (snd q')" by (rule suffix_length_le)
  then show ?case using Plus.IH [OF q'(1)] by simp
next
  case (Star a) then show ?case using matches_length [of e "Star a" q] by simp
next
  case (Opt a) then show ?case using matches_length [of e "Opt a" q] by simp
next
  case (UpTo n a) then show ?case using matches_length [of e "UpTo n a" q] by simp
next
  case Eps then show ?case by simp
next
  case (Chr c) then show ?case using one_suffix by simp
next
  case (NotChr c) then show ?case using one_suffix by simp
next
  case Dot then show ?case using one_suffix by simp
next
  case Space then show ?case using one_suffix by simp
next
  case WordB then show ?case by (simp split: if_splits)
next
  case Eol then show ?case by (simp split: if_splits)
qed

section \<open>The search and the loop of findMatches\<close>

lemma search_Some:
  "search r p s = Some (b, e) \<Longrightarrow> suffix (snd b) s \<and> e \<in> set (matches r b)"
proof (induction s arbitrary: p)
  case Nil
  then show ?case by (auto split: list.splits)
next
  case (Cons c cs)
  show ?case
  proof (cases "matches r (p, c # cs)")
    case Nil
    with Cons.prems have "search r (Some c) cs = Some (b, e)" by simp
    from Cons.IH [OF this] show ?thesis by (simp add: suffix_Cons)
  next
    case (Cons x xs)
    with Cons.prems show ?thesis by auto
  qed
qed

lemma find_loop_total:
  "0 < min_len r \<Longrightarrow> \<exists>ms. find_loop r t p s = Some ms"
proof (induction r t p s rule: find_loop.induct)
  case (1 r t p s)
  show ?case
  proof (cases "search r p s")
    case None
    then show ?thesis by (subst find_loop.simps) simp
  next
    case (Some be)
    obtain b e where be: "be = (b, e)" by (cases be)
    from search_Some [of r p s b e] Some be
    have sb: "suffix (snd b) s" and e: "e \<in> set (matches r b)" by simp_all
    from matches_min_len [OF e] "1.prems" have "length (snd e) < length (snd b)" by simp
    moreover from sb have "length (snd b) \<le> length s" by (rule suffix_length_le)
    ultimately have lt: "length (snd e) < length s" by simp
    from "1.IH" [OF Some be [symmetric] lt "1.prems"]
    obtain ms where "find_loop r t (fst e) (snd e) = Some ms" by blast
    with Some be lt show ?thesis by (subst find_loop.simps) simp
  qed
qed


lemma find_loop_matches:
  "find_loop r t p s = Some ms \<Longrightarrow> suffix s t \<Longrightarrow> m \<in> set ms \<Longrightarrow>
     m_index m + m_length m \<le> length t
     \<and> m_text m = substring t (m_index m) (m_index m + m_length m)"
proof (induction r t p s arbitrary: ms rule: find_loop.induct)
  case (1 r t p s)
  show ?case
  proof (cases "search r p s")
    case None
    with "1.prems" show ?thesis by (subst (asm) find_loop.simps) simp
  next
    case (Some be)
    obtain b e where be: "be = (b, e)" by (cases be)
    from search_Some [of r p s b e] Some be
    have sb: "suffix (snd b) s" and e: "e \<in> set (matches r b)" by simp_all
    from "1.prems"(1) Some be have lt: "length (snd e) < length s"
      by (subst (asm) find_loop.simps) (simp split: if_splits)
    from "1.prems"(1) Some be lt obtain rest where
      rest: "find_loop r t (fst e) (snd e) = Some rest"
      and ms: "ms = \<lparr>m_text = take (length (snd b) - length (snd e)) (snd b),
                      m_index = length t - length (snd b),
                      m_length = length (snd b) - length (snd e)\<rparr> # rest"
      by (subst (asm) find_loop.simps) auto
    have bt: "suffix (snd b) t" using sb "1.prems"(2) by (rule suffix_order.trans)
    have eb: "suffix (snd e) (snd b)" using e by (rule matches_suffix)
    have et: "suffix (snd e) t" using eb bt by (rule suffix_order.trans)
    show ?thesis
    proof (cases "m \<in> set rest")
      case True
      from "1.IH" [OF Some be [symmetric] lt rest et True] show ?thesis .
    next
      case False
      with "1.prems"(3) ms
      have m: "m = \<lparr>m_text = take (length (snd b) - length (snd e)) (snd b),
                     m_index = length t - length (snd b),
                     m_length = length (snd b) - length (snd e)\<rparr>" by simp
      from bt obtain u where u: "t = u @ snd b" by (auto simp: suffix_def)
      from eb obtain v where v: "snd b = v @ snd e" by (auto simp: suffix_def)
      show ?thesis by (simp add: m u v substring_def)
    qed
  qed
qed

lemma findMatches_sublist:
  assumes "findMatches r t = Some ms" and "m \<in> set ms"
  shows "sublist (m_text m) t"
proof -
  from assms have "m_text m = substring t (m_index m) (m_index m + m_length m)"
    using find_loop_matches [of r t None t ms m] by (simp add: findMatches_def)
  then have "m_text m = drop (m_index m) (take (m_index m + m_length m) t)"
    by (simp add: substring_def)
  moreover have "t = take (m_index m) (take (m_index m + m_length m) t)
                   @ drop (m_index m) (take (m_index m + m_length m) t)
                   @ drop (m_index m + m_length m) t"
    by (simp only: append_assoc [symmetric] append_take_drop_id)
  ultimately show ?thesis
    unfolding sublist_def by metis
qed

section \<open>The catalogue\<close>

lemma STRONG_POSITIVE_min_len: "\<forall>r \<in> set STRONG_POSITIVE_PATTERNS. 0 < min_len r"
  by (simp add: STRONG_POSITIVE_PATTERNS_def phrase_def seqs_def lit_def ws_def)

lemma MODERATE_POSITIVE_min_len: "\<forall>r \<in> set MODERATE_POSITIVE_PATTERNS. 0 < min_len r"
  by (simp add: MODERATE_POSITIVE_PATTERNS_def phrase_def seqs_def lit_def ws_def)

lemma STRONG_NEGATIVE_min_len: "\<forall>r \<in> set STRONG_NEGATIVE_PATTERNS. 0 < min_len r"
  by (simp add: STRONG_NEGATIVE_PATTERNS_def phrase_def seqs_def lit_def ws_def us_def dod_def opt_a_def)

lemma MODERATE_NEGATIVE_min_len: "\<forall>r \<in> set MODERATE_NEGATIVE_PATTERNS. 0 < min_len r"
  by (simp add: MODERATE_NEGATIVE_PATTERNS_def phrase_def seqs_def lit_def ws_def)

lemma findMatches_total: "0 < min_len r \<Longrightarrow> \<exists>ms. findMatches r t = Some ms"
  unfolding findMatches_def by (rule find_loop_total)

lemma scan_positive_found:
  "\<forall>r \<in> set ps. 0 < min_len r \<Longrightarrow>
   \<exists>mss. found ps t mss \<and> scan_positive ps t = Some (concat (map (surviving t) mss))"
proof (induction ps)
  case Nil
  then show ?case by (simp add: found_def)
next
  case (Cons r ps)
  from Cons.prems obtain ms where ms: "findMatches r t = Some ms"
    using findMatches_total [of r t] by auto
  from Cons obtain mss where mss: "found ps t mss"
    "scan_positive ps t = Some (concat (map (surviving t) mss))" by auto
  have "found (r # ps) t (ms # mss)" using ms mss(1) by (simp add: found_def)
  moreover have "scan_positive (r # ps) t = Some (concat (map (surviving t) (ms # mss)))"
    using ms mss(2) by (simp add: surviving_def)
  ultimately show ?case by blast
qed

lemma scan_negative_found:
  "\<forall>r \<in> set ps. 0 < min_len r \<Longrightarrow>
   \<exists>mss. found ps t mss \<and> scan_negative ps t = Some (concat (map (map m_text) mss))"
proof (induction ps)
  case Nil
  then show ?case by (simp add: found_def)
next
  case (Cons r ps)
  from Cons.prems obtain ms where ms: "findMatches r t = Some ms"
    using findMatches_total [of r t] by auto
  from Cons obtain mss where mss: "found ps t mss"
    "scan_negative ps t = Some (concat (map (map m_text) mss))" by auto
  have "found (r # ps) t (ms # mss)" using ms mss(1) by (simp add: found_def)
  moreover have "scan_negative (r # ps) t = Some (concat (map (map m_text) (ms # mss)))"
    using ms mss(2) by simp
  ultimately show ?case by blast
qed

text \<open>The scan returns, and its four lists are the matches of the four tiers.\<close>

lemma scan_found:
  "\<exists>sps mps sns mns.
      found STRONG_POSITIVE_PATTERNS t sps \<and> found MODERATE_POSITIVE_PATTERNS t mps
    \<and> found STRONG_NEGATIVE_PATTERNS t sns \<and> found MODERATE_NEGATIVE_PATTERNS t mns
    \<and> scan t = Some \<lparr>strongPositive = concat (map (surviving t) sps),
                      moderatePositive = concat (map (surviving t) mps),
                      strongNegative = concat (map (map m_text) sns),
                      moderateNegative = concat (map (map m_text) mns)\<rparr>"
proof -
  from scan_positive_found [OF STRONG_POSITIVE_min_len, of t] obtain sps where
    sps: "found STRONG_POSITIVE_PATTERNS t sps"
    "scan_positive STRONG_POSITIVE_PATTERNS t = Some (concat (map (surviving t) sps))" by blast
  from scan_positive_found [OF MODERATE_POSITIVE_min_len, of t] obtain mps where
    mps: "found MODERATE_POSITIVE_PATTERNS t mps"
    "scan_positive MODERATE_POSITIVE_PATTERNS t = Some (concat (map (surviving t) mps))" by blast
  from scan_negative_found [OF STRONG_NEGATIVE_min_len, of t] obtain sns where
    sns: "found STRONG_NEGATIVE_PATTERNS t sns"
    "scan_negative STRONG_NEGATIVE_PATTERNS t = Some (concat (map (map m_text) sns))" by blast
  from scan_negative_found [OF MODERATE_NEGATIVE_min_len, of t] obtain mns where
    mns: "found MODERATE_NEGATIVE_PATTERNS t mns"
    "scan_negative MODERATE_NEGATIVE_PATTERNS t = Some (concat (map (map m_text) mns))" by blast
  have "scan t = Some \<lparr>strongPositive = concat (map (surviving t) sps),
                      moderatePositive = concat (map (surviving t) mps),
                      strongNegative = concat (map (map m_text) sns),
                      moderateNegative = concat (map (map m_text) mns)\<rparr>"
    by (simp add: scan_def sps(2) mps(2) sns(2) mns(2))
  with sps(1) mps(1) sns(1) mns(1) show ?thesis by blast
qed

lemma scan_total: "\<exists>d. scan t = Some d"
  using scan_found [of t] by blast

lemma analyze_usable: "t \<noteq> [] \<Longrightarrow> scan t = Some d \<Longrightarrow> analyze (JString t) = Some (result d)"
  by simp


section \<open>The verdict of \<open>analyze\<close>\<close>

lemma concat_nothing:
  "concat xss = [] \<Longrightarrow> f [] = [] \<Longrightarrow> concat (map f xss) = []"
  by (induction xss) auto

lemma decide_cases:
  "decide d =
     (if strongPositive d \<noteq> [] then (Yes, ''Sponsorship Available'', High)
      else if strongNegative d \<noteq> [] then (No, ''No Sponsorship'', High)
      else if moderatePositive d \<noteq> [] then (Yes, ''Sponsorship Available'', Medium)
      else if moderateNegative d \<noteq> [] then (No, ''No Sponsorship'', Medium)
      else (Yes, ''Sponsorship Available'', Low))"
  by (simp add: decide_def)

lemma result_status:
  "status (result d) =
     (if strongPositive d \<noteq> [] then Yes else if strongNegative d \<noteq> [] then No
      else if moderatePositive d \<noteq> [] then Yes else if moderateNegative d \<noteq> [] then No
      else Yes)"
  by (simp add: result_def decide_cases)

lemma result_confidence:
  "confidence (result d) =
     (if strongPositive d \<noteq> [] then High else if strongNegative d \<noteq> [] then High
      else if moderatePositive d \<noteq> [] then Medium else if moderateNegative d \<noteq> [] then Medium
      else Low)"
  by (simp add: result_def decide_cases)

lemma result_details: "details (result d) = Some d"
  by (simp add: result_def split: prod.splits)

lemma result_matchedKeywords:
  "matchedKeywords (result d) =
     new_Set (strongPositive d @ moderatePositive d @ strongNegative d @ moderateNegative d)"
  by (simp add: result_def split: prod.splits)

lemma analyze_unusable: "\<not> usable v \<Longrightarrow> analyze v = Some no_description"
  by (cases v) simp_all

lemma analyze_total: "\<exists>r. analyze v = Some r"
proof (cases "usable v")
  case True
  then obtain t where t: "v = JString t" "t \<noteq> []" by (cases v) simp_all
  from scan_total [of t] obtain d where "scan t = Some d" ..
  with t show ?thesis by simp
next
  case False
  then show ?thesis by (simp add: analyze_unusable)
qed


section \<open>Deduplication\<close>

lemma set_new_Set: "set (new_Set xs) = set xs"
  by (induction xs rule: rev_induct) (auto simp: new_Set_def set_add_def)

lemma distinct_new_Set: "distinct (new_Set xs)"
proof (induction xs rule: rev_induct)
  case Nil
  then show ?case by (simp add: new_Set_def)
next
  case (snoc x xs)
  have "new_Set (xs @ [x]) = set_add (new_Set xs) x" by (simp add: new_Set_def)
  with snoc show ?case by (simp add: set_add_def)
qed

lemma first_occurrences_snoc:
  "first_occurrences (xs @ [x]) = first_occurrences xs @ (if x \<in> set xs then [] else [x])"
proof -
  have "filter (\<lambda>i. (xs @ [x]) ! i \<notin> set (take i (xs @ [x]))) [0..<length xs]
        = filter (\<lambda>i. xs ! i \<notin> set (take i xs)) [0..<length xs]"
    by (rule filter_cong) (auto simp: nth_append)
  moreover have "map (\<lambda>i. (xs @ [x]) ! i) (filter (\<lambda>i. xs ! i \<notin> set (take i xs)) [0..<length xs])
        = map (\<lambda>i. xs ! i) (filter (\<lambda>i. xs ! i \<notin> set (take i xs)) [0..<length xs])"
    by (rule map_cong) (auto simp: nth_append)
  ultimately show ?thesis by (simp add: first_occurrences_def)
qed

lemma new_Set_first_occurrences: "new_Set xs = first_occurrences xs"
proof (induction xs rule: rev_induct)
  case Nil
  then show ?case by (simp add: new_Set_def first_occurrences_def)
next
  case (snoc x xs)
  have "new_Set (xs @ [x]) = set_add (new_Set xs) x" by (simp add: new_Set_def)
  also have "\<dots> = new_Set xs @ (if x \<in> set xs then [] else [x])"
    by (simp add: set_add_def set_new_Set)
  finally show ?case by (simp add: snoc first_occurrences_snoc)
qed

section \<open>Matches are found from left to right\<close>

lemma find_loop_index_ge:
  "find_loop r t p s = Some ms \<Longrightarrow> suffix s t \<Longrightarrow> m \<in> set ms \<Longrightarrow>
     length t - length s \<le> m_index m"
proof (induction r t p s arbitrary: ms rule: find_loop.induct)
  case (1 r t p s)
  show ?case
  proof (cases "search r p s")
    case None
    with "1.prems" show ?thesis by (subst (asm) find_loop.simps) simp
  next
    case (Some be)
    obtain b e where be: "be = (b, e)" by (cases be)
    from search_Some [of r p s b e] Some be
    have sb: "suffix (snd b) s" and e: "e \<in> set (matches r b)" by simp_all
    from "1.prems"(1) Some be have lt: "length (snd e) < length s"
      by (subst (asm) find_loop.simps) (simp split: if_splits)
    from "1.prems"(1) Some be lt obtain rest where
      rest: "find_loop r t (fst e) (snd e) = Some rest"
      and ms: "ms = \<lparr>m_text = take (length (snd b) - length (snd e)) (snd b),
                      m_index = length t - length (snd b),
                      m_length = length (snd b) - length (snd e)\<rparr> # rest"
      by (subst (asm) find_loop.simps) auto
    have bt: "suffix (snd b) t" using sb "1.prems"(2) by (rule suffix_order.trans)
    have eb: "suffix (snd e) (snd b)" using e by (rule matches_suffix)
    have et: "suffix (snd e) t" using eb bt by (rule suffix_order.trans)
    have l1: "length (snd b) \<le> length s" using sb by (rule suffix_length_le)
    have l2: "length (snd e) \<le> length (snd b)" using eb by (rule suffix_length_le)
    show ?thesis
    proof (cases "m \<in> set rest")
      case True
      from "1.IH" [OF Some be [symmetric] lt rest et True] l1 l2 show ?thesis by simp
    next
      case False
      with "1.prems"(3) ms have "m_index m = length t - length (snd b)" by auto
      with l1 show ?thesis by simp
    qed
  qed
qed

lemma find_loop_ascending:
  "find_loop r t p s = Some ms \<Longrightarrow> suffix s t \<Longrightarrow>
     sorted_wrt (\<lambda>a b. m_index a + m_length a \<le> m_index b) ms"
proof (induction r t p s arbitrary: ms rule: find_loop.induct)
  case (1 r t p s)
  show ?case
  proof (cases "search r p s")
    case None
    with "1.prems" show ?thesis by (subst (asm) find_loop.simps) auto
  next
    case (Some be)
    obtain b e where be: "be = (b, e)" by (cases be)
    from search_Some [of r p s b e] Some be
    have sb: "suffix (snd b) s" and e: "e \<in> set (matches r b)" by simp_all
    from "1.prems"(1) Some be have lt: "length (snd e) < length s"
      by (subst (asm) find_loop.simps) (simp split: if_splits)
    from "1.prems"(1) Some be lt obtain rest where
      rest: "find_loop r t (fst e) (snd e) = Some rest"
      and ms: "ms = \<lparr>m_text = take (length (snd b) - length (snd e)) (snd b),
                      m_index = length t - length (snd b),
                      m_length = length (snd b) - length (snd e)\<rparr> # rest"
      by (subst (asm) find_loop.simps) auto
    have bt: "suffix (snd b) t" using sb "1.prems"(2) by (rule suffix_order.trans)
    have eb: "suffix (snd e) (snd b)" using e by (rule matches_suffix)
    have et: "suffix (snd e) t" using eb bt by (rule suffix_order.trans)
    have l1: "length (snd b) \<le> length t" using bt by (rule suffix_length_le)
    have l2: "length (snd e) \<le> length (snd b)" using eb by (rule suffix_length_le)
    have "sorted_wrt (\<lambda>a b. m_index a + m_length a \<le> m_index b) rest"
      using "1.IH" [OF Some be [symmetric] lt rest et] .
    moreover have "\<forall>m \<in> set rest. length t - length (snd e) \<le> m_index m"
      using find_loop_index_ge [OF rest et] by blast
    ultimately show ?thesis using ms l1 l2 by auto
  qed
qed

lemma findMatches_ascending:
  "findMatches r t = Some ms \<Longrightarrow> sorted_wrt (\<lambda>a b. m_index a + m_length a \<le> m_index b) ms"
  using find_loop_ascending [of r t None t ms] by (simp add: findMatches_def)

lemma findMatches_empty_text:
  assumes "0 < min_len r" and "findMatches r [] = Some ms"
  shows "ms = []"
proof -
  have "matches r (None, []) = []"
  proof (cases "matches r (None, [])")
    case (Cons e es)
    then have "e \<in> set (matches r (None, []))" by simp
    from matches_min_len [OF this] assms(1) show ?thesis by simp
  qed simp
  then have "find_loop r [] None [] = Some []"
    by (subst find_loop.simps) simp
  with assms(2) show ?thesis by (simp add: findMatches_def)
qed

lemma found_empty_text:
  "\<forall>r \<in> set ps. 0 < min_len r \<Longrightarrow> found ps [] mss \<Longrightarrow> concat mss = []"
  unfolding found_def
proof (induction ps arbitrary: mss)
  case Nil
  then show ?case by simp
next
  case (Cons r ps)
  from Cons.prems(2) obtain ms rest where m: "mss = ms # rest" "findMatches r [] = Some ms"
    "list_all2 (\<lambda>p ms. findMatches p [] = Some ms) ps rest"
    by (auto simp: list_all2_Cons1)
  from Cons.prems(1) m(2) have "ms = []" using findMatches_empty_text [of r ms] by simp
  moreover from Cons.IH [OF _ m(3)] Cons.prems(1) have "concat rest = []" by simp
  ultimately show ?case using m(1) by simp
qed

lemma found_pattern:
  assumes "found ps t mss" and "ms \<in> set mss"
  shows "\<exists>p \<in> set ps. findMatches p t = Some ms"
proof -
  from assms(2) obtain i where i: "i < length mss" "mss ! i = ms"
    by (auto simp: in_set_conv_nth)
  from assms(1) have "length ps = length mss" "\<forall>i < length mss. findMatches (ps ! i) t = Some (mss ! i)"
    by (simp_all add: found_def list_all2_conv_all_nth)
  with i have "ps ! i \<in> set ps" "findMatches (ps ! i) t = Some ms" by auto
  then show ?thesis by blast
qed

lemma found_sublist:
  "found ps t mss \<Longrightarrow> ms \<in> set mss \<Longrightarrow> m \<in> set ms \<Longrightarrow> sublist (m_text m) t"
  using found_pattern findMatches_sublist by blast

lemma found_ascending:
  "found ps t mss \<Longrightarrow> ms \<in> set mss \<Longrightarrow>
     sorted_wrt (\<lambda>a b. m_index a + m_length a \<le> m_index b) ms"
  using found_pattern findMatches_ascending by blast

lemma surviving_sublist:
  "found ps t mss \<Longrightarrow> k \<in> set (concat (map (surviving t) mss)) \<Longrightarrow> sublist k t"
  by (auto simp: surviving_def dest: found_sublist)

lemma all_sublist:
  "found ps t mss \<Longrightarrow> k \<in> set (concat (map (map m_text) mss)) \<Longrightarrow> sublist k t"
  by (auto dest: found_sublist)

lemma analyze_cases:
  obtains "t = []" "analyze (JString t) = Some no_description"
  | sps mps sns mns d where "t \<noteq> []"
      "found STRONG_POSITIVE_PATTERNS t sps" "found MODERATE_POSITIVE_PATTERNS t mps"
      "found STRONG_NEGATIVE_PATTERNS t sns" "found MODERATE_NEGATIVE_PATTERNS t mns"
      "d = \<lparr>strongPositive = concat (map (surviving t) sps),
            moderatePositive = concat (map (surviving t) mps),
            strongNegative = concat (map (map m_text) sns),
            moderateNegative = concat (map (map m_text) mns)\<rparr>"
      "analyze (JString t) = Some (result d)"
proof (cases "t = []")
  case True
  then show ?thesis using that(1) by simp
next
  case False
  from scan_found [of t] obtain sps mps sns mns where
    f: "found STRONG_POSITIVE_PATTERNS t sps" "found MODERATE_POSITIVE_PATTERNS t mps"
       "found STRONG_NEGATIVE_PATTERNS t sns" "found MODERATE_NEGATIVE_PATTERNS t mns"
    and sc: "scan t = Some \<lparr>strongPositive = concat (map (surviving t) sps),
                      moderatePositive = concat (map (surviving t) mps),
                      strongNegative = concat (map (map m_text) sns),
                      moderateNegative = concat (map (map m_text) mns)\<rparr>"
    by blast
  from False sc have "analyze (JString t) = Some (result \<lparr>strongPositive = concat (map (surviving t) sps),
                      moderatePositive = concat (map (surviving t) mps),
                      strongNegative = concat (map (map m_text) sns),
                      moderateNegative = concat (map (map m_text) mns)\<rparr>)" by simp
  with False f show ?thesis using that(2) by blast
qed

lemma firstMatch_result:
  "firstMatch (result d) =
     (if strongPositive d \<noteq> [] then Inr None
      else if strongNegative d \<noteq> [] then Inr (Some (hd (strongNegative d)))
      else if moderatePositive d \<noteq> [] then Inr None
      else if moderateNegative d \<noteq> [] then Inr (Some (hd (moderateNegative d)))
      else Inr None)"
  by (auto simp: firstMatch_def result_status result_details matchedPhrases_def
           split: list.splits)


text \<open>The verdict of any text, in terms of the matches of the four tiers.\<close>

lemma analyze_found:
  "\<exists>sps mps sns mns d r.
      found STRONG_POSITIVE_PATTERNS t sps \<and> found MODERATE_POSITIVE_PATTERNS t mps
    \<and> found STRONG_NEGATIVE_PATTERNS t sns \<and> found MODERATE_NEGATIVE_PATTERNS t mns
    \<and> d = \<lparr>strongPositive = concat (map (surviving t) sps),
            moderatePositive = concat (map (surviving t) mps),
            strongNegative = concat (map (map m_text) sns),
            moderateNegative = concat (map (map m_text) mns)\<rparr>
    \<and> analyze (JString t) = Some r
    \<and> matchedKeywords r = first_occurrences (strongPositive d @ moderatePositive d
                                              @ strongNegative d @ moderateNegative d)
    \<and> (t \<noteq> [] \<longrightarrow> details r = Some d
          \<and> (status r, confidence r) =
              (if strongPositive d \<noteq> [] then (Yes, High)
               else if strongNegative d \<noteq> [] then (No, High)
               else if moderatePositive d \<noteq> [] then (Yes, Medium)
               else if moderateNegative d \<noteq> [] then (No, Medium)
               else (Yes, Low)))"
proof -
  from scan_found [of t] obtain sps mps sns mns where
    f: "found STRONG_POSITIVE_PATTERNS t sps" "found MODERATE_POSITIVE_PATTERNS t mps"
       "found STRONG_NEGATIVE_PATTERNS t sns" "found MODERATE_NEGATIVE_PATTERNS t mns"
    and sc: "scan t = Some \<lparr>strongPositive = concat (map (surviving t) sps),
                      moderatePositive = concat (map (surviving t) mps),
                      strongNegative = concat (map (map m_text) sns),
                      moderateNegative = concat (map (map m_text) mns)\<rparr>"
    by blast
  define d where "d = \<lparr>strongPositive = concat (map (surviving t) sps),
                      moderatePositive = concat (map (surviving t) mps),
                      strongNegative = concat (map (map m_text) sns),
                      moderateNegative = concat (map (map m_text) mns)\<rparr>"
  have "\<exists>r. analyze (JString t) = Some r
    \<and> matchedKeywords r = first_occurrences (strongPositive d @ moderatePositive d
                                              @ strongNegative d @ moderateNegative d)
    \<and> (t \<noteq> [] \<longrightarrow> details r = Some d
          \<and> (status r, confidence r) =
              (if strongPositive d \<noteq> [] then (Yes, High)
               else if strongNegative d \<noteq> [] then (No, High)
               else if moderatePositive d \<noteq> [] then (Yes, Medium)
               else if moderateNegative d \<noteq> [] then (No, Medium)
               else (Yes, Low)))"
  proof (cases "t = []")
    case True
    have "concat sps = []" "concat mps = []" "concat sns = []" "concat mns = []"
      using f found_empty_text STRONG_POSITIVE_min_len MODERATE_POSITIVE_min_len
        STRONG_NEGATIVE_min_len MODERATE_NEGATIVE_min_len unfolding True by blast+
    then have "concat (map (surviving t) sps) = []" "concat (map (surviving t) mps) = []"
      "concat (map (map m_text) sns) = []" "concat (map (map m_text) mns) = []"
      by (simp_all add: concat_nothing surviving_def)
    then show ?thesis using True
      by (simp add: no_description_def first_occurrences_def d_def)
  next
    case False
    from False sc have a: "analyze (JString t) = Some (result d)" by (simp add: d_def)
    have "matchedKeywords (result d) = first_occurrences (strongPositive d @ moderatePositive d
                                              @ strongNegative d @ moderateNegative d)"
      by (simp add: result_matchedKeywords new_Set_first_occurrences)
    moreover have "details (result d) = Some d" by (rule result_details)
    moreover have "(status (result d), confidence (result d)) =
              (if strongPositive d \<noteq> [] then (Yes, High)
               else if strongNegative d \<noteq> [] then (No, High)
               else if moderatePositive d \<noteq> [] then (Yes, Medium)
               else if moderateNegative d \<noteq> [] then (No, Medium)
               else (Yes, Low))"
      by (simp add: result_status result_confidence)
    ultimately show ?thesis using a by blast
  qed
  with f d_def show ?thesis by blast
qed

section \<open>The full stop under canonicalisation\<close>

lemma canonicalize_full_stop: "canonicalize x = CHR ''.'' \<longleftrightarrow> x = CHR ''.''"
proof (cases "map_of (zip lower_letters upper_letters) x")
  case None
  then show ?thesis by (simp add: canonicalize_def)
next
  case (Some u)
  then have "(x, u) \<in> set (zip lower_letters upper_letters)" by (rule map_of_SomeD)
  then have "u \<noteq> CHR ''.'' \<and> x \<noteq> CHR ''.''"
    by (auto simp: upper_letters_def lower_letters_def)
  with Some show ?thesis by (simp add: canonicalize_def)
qed

section \<open>The negation check\<close>

lemma negated_by_iff:
  "negated_by ps ctx \<longleftrightarrow> (\<exists>neg \<in> set ps. test neg ctx \<and> test (near_end neg) ctx)"
  by (induction ps) auto

lemma search_None_iff: "search r p s = None \<longleftrightarrow> match_ends r p s = []"
  by (induction s arbitrary: p) (auto split: list.splits)

lemma test_iff: "test r s \<longleftrightarrow> match_ends r None s \<noteq> []"
  by (simp add: test_def search_None_iff)

lemma set_match_ends_Seq:
  "set (match_ends (Seq a b) p s) = (\<Union>e \<in> set (match_ends a p s). set (matches b e))"
  by (induction s arbitrary: p) auto

lemma repeat_upto_one_end:
  "(\<exists>e \<in> set (repeat_upto n (one P) (p, s)). snd e = [])
   \<longleftrightarrow> length s \<le> n \<and> (\<forall>x \<in> set s. P x)"
proof (induction n arbitrary: p s)
  case 0
  then show ?case by auto
next
  case (Suc n)
  show ?case
  proof (cases s)
    case Nil
    then show ?thesis by (simp add: one_def)
  next
    case (Cons x xs)
    show ?thesis
    proof (cases "P x")
      case True
      with Cons Suc.IH [of "Some x" xs] show ?thesis by (simp add: one_def)
    next
      case False
      with Cons show ?thesis by (simp add: one_def)
    qed
  qed
qed

lemma sentence_tail:
  "matches (Seq (UpTo n (NotChr CHR ''.'')) Eol) e \<noteq> []
   \<longleftrightarrow> length (snd e) \<le> n \<and> CHR ''.'' \<notin> set (snd e)"
proof -
  have c: "canonicalize CHR ''.'' = CHR ''.''" by (simp add: canonicalize_full_stop)
  have m: "matches (NotChr CHR ''.'') = one (\<lambda>x. canonicalize x \<noteq> canonicalize CHR ''.'')"
    by (rule ext) simp
  have "matches (Seq (UpTo n (NotChr CHR ''.'')) Eol) e \<noteq> []
        \<longleftrightarrow> (\<exists>e' \<in> set (repeat_upto n (matches (NotChr CHR ''.'')) e). snd e' = [])"
    by (auto simp: concat_eq_Nil_conv)
  also have "\<dots> \<longleftrightarrow> (\<exists>e' \<in> set (repeat_upto n (one (\<lambda>x. canonicalize x \<noteq> canonicalize CHR ''.''))
                              (fst e, snd e)). snd e' = [])"
    by (simp only: m prod.collapse)
  also have "\<dots> \<longleftrightarrow> length (snd e) \<le> n \<and> (\<forall>x \<in> set (snd e). canonicalize x \<noteq> canonicalize CHR ''.'')"
    by (rule repeat_upto_one_end)
  also have "\<dots> \<longleftrightarrow> length (snd e) \<le> n \<and> CHR ''.'' \<notin> set (snd e)"
    by (auto simp: c canonicalize_full_stop)
  finally show ?thesis .
qed

lemma test_near_end:
  "test (near_end neg) ctx \<longleftrightarrow>
     (\<exists>e \<in> set (match_ends neg None ctx). length (snd e) \<le> 20 \<and> CHR ''.'' \<notin> set (snd e))"
proof -
  have "test (near_end neg) ctx \<longleftrightarrow>
     (\<exists>e \<in> set (match_ends neg None ctx).
        matches (Seq (UpTo 20 (NotChr CHR ''.'')) Eol) e \<noteq> [])"
    unfolding test_iff near_end_def
    by (simp only: set_empty [symmetric] set_match_ends_Seq) auto
  then show ?thesis by (simp only: sentence_tail)
qed

lemma test_near_end_test: "test (near_end neg) ctx \<Longrightarrow> test neg ctx"
  unfolding test_near_end unfolding test_iff by auto

lemma isNegated_iff: "isNegated t i l \<longleftrightarrow> cue_in_sentence 20 (contextBefore t i)"
proof -
  have "isNegated t i l \<longleftrightarrow>
        (\<exists>neg \<in> set NEGATION_PATTERNS. test (near_end neg) (contextBefore t i))"
    unfolding isNegated_def negated_by_iff using test_near_end_test by blast
  then show ?thesis
    unfolding cue_in_sentence_def test_near_end .
qed

lemma match_ends_append:
  "set (matches r (if u = [] then p else Some (last u), v)) \<subseteq> set (match_ends r p (u @ v))"
proof (induction u arbitrary: p)
  case Nil
  then show ?case by (cases v) simp_all
next
  case (Cons x xs)
  from Cons.IH [of "Some x"] show ?case by auto
qed

lemma repeat_star_stop: "m q = [] \<Longrightarrow> repeat_star m q = [q]"
  by (subst repeat_star.simps) simp

lemma no_cue_in_NEGATION_PATTERNS: "cue [''no''] \<in> set NEGATION_PATTERNS"
  by (simp add: NEGATION_PATTERNS_def)

lemma white_space_run:
  "\<forall>x \<in> set cs. is_space x \<Longrightarrow>
   (Some (last (c # cs)), []) \<in> set (repeat_star (matches Space) (Some c, cs))"
proof (induction cs arbitrary: c)
  case Nil
  have "matches Space (Some c, []) = []" by (simp add: one_def)
  then have "repeat_star (matches Space) (Some c, []) = [(Some c, [])]"
    by (rule repeat_star_stop)
  then show ?case by (simp del: matches.simps)
next
  case (Cons x xs)
  from Cons.prems have x: "is_space x" and xs: "\<forall>y \<in> set xs. is_space y" by simp_all
  have m: "matches Space (Some c, x # xs) = [(Some x, xs)]"
    using x by (simp add: one_def)
  have "set (repeat_star (matches Space) (Some x, xs))
        \<subseteq> set (repeat_star (matches Space) (Some c, x # xs))"
    by (subst (2) repeat_star.simps) (auto simp add: m simp del: matches.simps)
  with Cons.IH [OF xs, of x] show ?case by (auto simp del: matches.simps)
qed

lemma concat_matches_Eps: "concat (map (matches Eps) qs) = qs"
  by (induction qs) simp_all

lemma cue_no_white_space:
  assumes "\<not> word_before (pp, ''no'' @ w)" and "w \<noteq> []" and "\<forall>x \<in> set w. is_space x"
  shows "(Some (last w), []) \<in> set (matches (cue [''no'']) (pp, ''no'' @ w))"
proof -
  from assms(2) obtain c cs where w: "w = c # cs" by (cases w) auto
  with assms(3) have c: "is_space c" and cs: "\<forall>x \<in> set cs. is_space x" by simp_all
  have wa: "word_after (pp, CHR ''n'' # CHR ''o'' # c # cs)"
    by (simp add: word_after_def is_word_bits letter5_def)
  have b: "matches WordB (pp, CHR ''n'' # CHR ''o'' # c # cs) = [(pp, CHR ''n'' # CHR ''o'' # c # cs)]"
    using assms(1) wa by (simp add: w)
  have n: "matches (Chr CHR ''n'') (pp, CHR ''n'' # CHR ''o'' # c # cs)
           = [(Some CHR ''n'', CHR ''o'' # c # cs)]"
    by (simp add: one_def)
  have o: "matches (Chr CHR ''o'') (Some CHR ''n'', CHR ''o'' # c # cs) = [(Some CHR ''o'', c # cs)]"
    by (simp add: one_def)
  have sp: "matches Space (Some CHR ''o'', c # cs) = [(Some c, cs)]"
    using c by (simp add: one_def)
  have "matches (cue [''no'']) (pp, CHR ''n'' # CHR ''o'' # c # cs)
        = repeat_star (matches Space) (Some c, cs)"
    by (simp add: cue_def seqs_def lit_def ws_def b n o sp concat_matches_Eps
          del: matches.simps(2,5,6))
  with white_space_run [OF cs, of c] show ?thesis by (simp add: w)
qed

lemma negated_when_context_ends_in_no:
  assumes "contextBefore t i = u @ ''no'' @ w" and "w \<noteq> []" and "\<forall>x \<in> set w. is_space x"
    and "u = [] \<or> \<not> is_word (last u)"
  shows "isNegated t i l"
proof -
  have nw: "\<not> word_before (if u = [] then None else Some (last u), ''no'' @ w)"
    using assms(4) by (auto simp: word_before_def)
  have "(Some (last w), []) \<in> set (match_ends (cue [''no'']) None (u @ ''no'' @ w))"
    using cue_no_white_space [OF nw assms(2,3)] match_ends_append by blast
  then have "cue_in_sentence 20 (u @ ''no'' @ w)"
    unfolding cue_in_sentence_def using no_cue_in_NEGATION_PATTERNS by force
  then show ?thesis unfolding isNegated_iff assms(1) .
qed

section \<open>The fingerprint\<close>

lemma decimal_not_Nil: "decimal n \<noteq> []"
  by (subst decimal.simps) simp

lemma digit_chars_nth_inj:
  "i < 10 \<Longrightarrow> j < 10 \<Longrightarrow> digit_chars ! i = digit_chars ! j \<Longrightarrow> i = j"
proof -
  have "distinct digit_chars" by (simp add: digit_chars_def)
  moreover have "length digit_chars = 10" by (simp add: digit_chars_def)
  ultimately show "i < 10 \<Longrightarrow> j < 10 \<Longrightarrow> digit_chars ! i = digit_chars ! j \<Longrightarrow> i = j"
    by (simp add: nth_eq_iff_index_eq)
qed

lemma decimal_digits: "set (decimal n) \<subseteq> set digit_chars"
proof (induction n rule: decimal.induct)
  case (1 n)
  have len: "length digit_chars = 10" by (simp add: digit_chars_def)
  show ?case
  proof (cases "n < 10")
    case True
    then have "digit_chars ! n \<in> set digit_chars" using len by simp
    with True show ?thesis by (subst decimal.simps) simp
  next
    case False
    have "n mod 10 < 10" by simp
    then have "digit_chars ! (n mod 10) \<in> set digit_chars" using len by simp
    with False "1.IH" show ?thesis by (subst decimal.simps) simp
  qed
qed

lemma bar_not_in_decimal: "CHR ''|'' \<notin> set (decimal n)"
proof -
  have "CHR ''|'' \<notin> set digit_chars" by (simp add: digit_chars_def)
  with decimal_digits [of n] show ?thesis by blast
qed

lemma decimal_inj: "decimal m = decimal n \<Longrightarrow> m = n"
proof (induction m arbitrary: n rule: decimal.induct)
  case (1 m)
  show ?case
  proof (cases "m < 10")
    case m: True
    show ?thesis
    proof (cases "n < 10")
      case True
      with m "1.prems" have "digit_chars ! m = digit_chars ! n"
        by (subst (asm) decimal.simps, subst (asm) (2) decimal.simps) simp
      with m True show ?thesis by (rule digit_chars_nth_inj)
    next
      case False
      with m "1.prems" have "[digit_chars ! m] = decimal (n div 10) @ [digit_chars ! (n mod 10)]"
        by (subst (asm) decimal.simps, subst (asm) (2) decimal.simps) simp
      then have "decimal (n div 10) = []" by simp
      then show ?thesis by (simp add: decimal_not_Nil)
    qed
  next
    case m: False
    show ?thesis
    proof (cases "n < 10")
      case True
      with m "1.prems" have "decimal (m div 10) @ [digit_chars ! (m mod 10)] = [digit_chars ! n]"
        by (subst (asm) decimal.simps, subst (asm) (2) decimal.simps) simp
      then have "decimal (m div 10) = []" by simp
      then show ?thesis by (simp add: decimal_not_Nil)
    next
      case False
      with m "1.prems"
      have "decimal (m div 10) @ [digit_chars ! (m mod 10)]
            = decimal (n div 10) @ [digit_chars ! (n mod 10)]"
        by (subst (asm) decimal.simps, subst (asm) (2) decimal.simps) simp
      then have d: "decimal (m div 10) = decimal (n div 10)"
        and r: "digit_chars ! (m mod 10) = digit_chars ! (n mod 10)" by simp_all
      from "1.IH" [OF m d] have "m div 10 = n div 10" .
      moreover from r have "m mod 10 = n mod 10"
        by (rule digit_chars_nth_inj [rotated 2]) simp_all
      ultimately show ?thesis by (metis div_mult_mod_eq)
    qed
  qed
qed

lemma split_at_last:
  assumes "c \<notin> set u" and "c \<notin> set v" and "a @ c # u = b @ c # v"
  shows "a = b \<and> u = v"
proof -
  from assms(3) have "rev u @ c # rev a = rev v @ c # rev b"
    by (metis rev_append rev.simps(2) append_assoc append_Cons append_Nil)
  moreover have "takeWhile (\<lambda>x. x \<noteq> c) (rev u @ c # rev a) = rev u"
    using assms(1) by (auto simp: takeWhile_tail takeWhile_eq_all_conv)
  moreover have "takeWhile (\<lambda>x. x \<noteq> c) (rev v @ c # rev b) = rev v"
    using assms(2) by (auto simp: takeWhile_tail takeWhile_eq_all_conv)
  ultimately have "rev u = rev v" by simp
  then have "u = v" by simp
  with assms(3) show ?thesis by simp
qed

lemma hash_eq_iff:
  assumes "a \<noteq> []" and "b \<noteq> []"
  shows "hashJobDescription (Some a) = hashJobDescription (Some b)
         \<longleftrightarrow> length a = length b \<and> trim (substring a 0 200) = trim (substring b 0 200)"
proof
  assume "hashJobDescription (Some a) = hashJobDescription (Some b)"
  with assms have "trim (substring a 0 200) @ CHR ''|'' # decimal (length a)
                 = trim (substring b 0 200) @ CHR ''|'' # decimal (length b)"
    by (simp add: hashJobDescription_def)
  from split_at_last [OF bar_not_in_decimal bar_not_in_decimal this]
  show "length a = length b \<and> trim (substring a 0 200) = trim (substring b 0 200)"
    by (auto dest: decimal_inj)
next
  assume "length a = length b \<and> trim (substring a 0 200) = trim (substring b 0 200)"
  with assms show "hashJobDescription (Some a) = hashJobDescription (Some b)"
    by (simp add: hashJobDescription_def)
qed


section \<open>The monitor\<close>

lemma processJobPage_unchanged:
  "\<not> changed st pg \<Longrightarrow> processJobPage False st pg = Some (st, [])"
  by (simp add: processJobPage_def changed_def Let_def)

text \<open>The periodic check compares the job id and the fingerprint only, not the badge.\<close>

lemma checkForJobChange_unchanged:
  "jobId pg = currentJobId st \<Longrightarrow>
   hashJobDescription (description pg) = currentJobDescriptionHash st \<Longrightarrow>
   checkForJobChange st pg = Some (st, [])"
  by (simp add: checkForJobChange_def)

lemma processJobPage_classifies:
  assumes "force \<or> \<not> isProcessing st" and "isLinkedInJobPage pg"
    and "description pg = Some t" and "t \<noteq> []"
    and "force \<or> changed st pg"
  shows "\<exists>v. analyze (JString t) = Some v \<and>
     processJobPage force st pg =
       Some (\<lparr>currentJobId = jobId pg,
              currentJobDescriptionHash = hashJobDescription (description pg),
              isProcessing = False\<rparr>,
             [if badge pg then UpdateBadge v else InjectBadge v,
              if status v = No then SetTimeout_highlight v t 100 else RemoveHighlights])"
proof -
  from analyze_total [of "JString t"] obtain v where v: "analyze (JString t) = Some v" ..
  have "processJobPage force st pg =
       Some (\<lparr>currentJobId = jobId pg,
              currentJobDescriptionHash = hashJobDescription (description pg),
              isProcessing = False\<rparr>,
             [if badge pg then UpdateBadge v else InjectBadge v,
              if status v = No then SetTimeout_highlight v t 100 else RemoveHighlights])"
    using assms v
    by (auto simp: processJobPage_def changed_def Let_def no_text_def simp del: analyze.simps)
  with v show ?thesis by blast
qed


section \<open>Retries\<close>





section \<open>Sample texts, scanned\<close>

lemma scan_no_sponsorship_available:
  "scan ''No sponsorship available'' =
     Some \<lparr>strongPositive = [], moderatePositive = [],
           strongNegative = [''No sponsorship''], moderateNegative = []\<rparr>"
  by code_simp

lemma scan_tn_visa_twice:
  "scan ''TN visa, TN visa'' =
     Some \<lparr>strongPositive = [''TN visa'', ''TN visa''], moderatePositive = [],
           strongNegative = [], moderateNegative = []\<rparr>"
  by code_simp

lemma scan_sponsor_and_itar:
  "scan ''will sponsor. ITAR eligible'' =
     Some \<lparr>strongPositive = [''will sponsor''], moderatePositive = [],
           strongNegative = [''ITAR eligible''], moderateNegative = []\<rparr>"
  by code_simp


lemma scan_not_relocate:
  "scan ''not relocate. visa sponsorship'' =
     Some \<lparr>strongPositive = [''visa sponsorship''], moderatePositive = [],
           strongNegative = [], moderateNegative = []\<rparr>"
  by code_simp


lemma scan_no_49_spaces:
  "scan (''no'' @ replicate 49 CHR '' '' @ ''sponsorship available'') =
     Some \<lparr>strongPositive = [''sponsorship available''], moderatePositive = [],
           strongNegative = [''no'' @ replicate 49 CHR '' '' @ ''sponsorship''],
           moderateNegative = []\<rparr>"
  by code_simp

lemma context_no_sponsorship_available:
  "contextBefore ''No sponsorship available'' 3 = [] @ ''no'' @ '' ''"
  by code_simp

section \<open>The claims\<close>

text \<open>
  C1, as amended.  For every non-empty string, \<open>analyze\<close> returns, the four lists of
  its \<open>details\<close> are the surviving matches of the two positive tiers and all matches
  of the two negative tiers, and status and confidence follow the precedence: a
  surviving StrongPositive match gives \<open>Yes\<close>/\<open>High\<close> (whatever the negative lists
  hold); otherwise a StrongNegative match gives \<open>No\<close>/\<open>High\<close>; otherwise a surviving
  ModeratePositive match gives \<open>Yes\<close>/\<open>Medium\<close>; otherwise a ModerateNegative match
  gives \<open>No\<close>/\<open>Medium\<close>; otherwise, and so when no pattern matched at all, the result
  is \<open>Yes\<close>/\<open>Low\<close>.  (On the empty string the guard of \<open>analyze\<close> answers
  \<open>Unclear\<close>/\<open>Low\<close> instead: see the counterexample.)
\<close>

theorem analyze_tier_precedence:
  assumes "t \<noteq> []"
  shows "\<exists>sps mps sns mns d r.
      found STRONG_POSITIVE_PATTERNS t sps \<and> found MODERATE_POSITIVE_PATTERNS t mps
    \<and> found STRONG_NEGATIVE_PATTERNS t sns \<and> found MODERATE_NEGATIVE_PATTERNS t mns
    \<and> d = \<lparr>strongPositive = concat (map (surviving t) sps),
            moderatePositive = concat (map (surviving t) mps),
            strongNegative = concat (map (map m_text) sns),
            moderateNegative = concat (map (map m_text) mns)\<rparr>
    \<and> analyze (JString t) = Some r \<and> details r = Some d
    \<and> (status r, confidence r) =
        (if strongPositive d \<noteq> [] then (Yes, High)
         else if strongNegative d \<noteq> [] then (No, High)
         else if moderatePositive d \<noteq> [] then (Yes, Medium)
         else if moderateNegative d \<noteq> [] then (No, Medium)
         else (Yes, Low))
    \<and> (concat sps = [] \<and> concat mps = [] \<and> concat sns = [] \<and> concat mns = []
         \<longrightarrow> status r = Yes \<and> confidence r = Low)"
proof -
  from scan_found [of t] obtain sps mps sns mns where
    f: "found STRONG_POSITIVE_PATTERNS t sps" "found MODERATE_POSITIVE_PATTERNS t mps"
       "found STRONG_NEGATIVE_PATTERNS t sns" "found MODERATE_NEGATIVE_PATTERNS t mns"
    and sc: "scan t = Some \<lparr>strongPositive = concat (map (surviving t) sps),
                      moderatePositive = concat (map (surviving t) mps),
                      strongNegative = concat (map (map m_text) sns),
                      moderateNegative = concat (map (map m_text) mns)\<rparr>"
    by blast
  define d where "d = \<lparr>strongPositive = concat (map (surviving t) sps),
                      moderatePositive = concat (map (surviving t) mps),
                      strongNegative = concat (map (map m_text) sns),
                      moderateNegative = concat (map (map m_text) mns)\<rparr>"
  have a: "analyze (JString t) = Some (result d)"
    using assms sc by (simp add: d_def)
  have st: "(status (result d), confidence (result d)) =
        (if strongPositive d \<noteq> [] then (Yes, High)
         else if strongNegative d \<noteq> [] then (No, High)
         else if moderatePositive d \<noteq> [] then (Yes, Medium)
         else if moderateNegative d \<noteq> [] then (No, Medium)
         else (Yes, Low))"
    by (simp add: result_status result_confidence)
  have none: "concat sps = [] \<and> concat mps = [] \<and> concat sns = [] \<and> concat mns = []
         \<longrightarrow> status (result d) = Yes \<and> confidence (result d) = Low"
  proof
    assume e: "concat sps = [] \<and> concat mps = [] \<and> concat sns = [] \<and> concat mns = []"
    have "concat (map (surviving t) sps) = []"
      using e by (simp add: concat_nothing surviving_def)
    moreover have "concat (map (surviving t) mps) = []"
      using e by (simp add: concat_nothing surviving_def)
    moreover have "concat (map (map m_text) sns) = []"
      using e by (simp add: concat_nothing)
    moreover have "concat (map (map m_text) mns) = []"
      using e by (simp add: concat_nothing)
    ultimately show "status (result d) = Yes \<and> confidence (result d) = Low"
      by (simp add: result_status result_confidence d_def)
  qed
  from f d_def a result_details [of d] st none show ?thesis by blast
qed

theorem analyze_tier_precedence_witness:
  "''no sponsorship'' \<noteq> [] \<and>
   (\<exists>sps mps sns mns d r.
      found STRONG_POSITIVE_PATTERNS ''no sponsorship'' sps
    \<and> found MODERATE_POSITIVE_PATTERNS ''no sponsorship'' mps
    \<and> found STRONG_NEGATIVE_PATTERNS ''no sponsorship'' sns
    \<and> found MODERATE_NEGATIVE_PATTERNS ''no sponsorship'' mns
    \<and> d = \<lparr>strongPositive = concat (map (surviving ''no sponsorship'') sps),
            moderatePositive = concat (map (surviving ''no sponsorship'') mps),
            strongNegative = concat (map (map m_text) sns),
            moderateNegative = concat (map (map m_text) mns)\<rparr>
    \<and> analyze (JString ''no sponsorship'') = Some r \<and> details r = Some d
    \<and> (status r, confidence r) =
        (if strongPositive d \<noteq> [] then (Yes, High)
         else if strongNegative d \<noteq> [] then (No, High)
         else if moderatePositive d \<noteq> [] then (Yes, Medium)
         else if moderateNegative d \<noteq> [] then (No, Medium)
         else (Yes, Low))
    \<and> (concat sps = [] \<and> concat mps = [] \<and> concat sns = [] \<and> concat mns = []
         \<longrightarrow> status r = Yes \<and> confidence r = Low))"
proof -
  have h: "''no sponsorship'' \<noteq> []" by simp
  from h analyze_tier_precedence [OF h] show ?thesis by (rule conjI)
qed

text \<open>
  C1, as stated, at the empty string: it is a string, no pattern of any tier matches
  in it, and the result is \<open>Unclear\<close>/\<open>Low\<close>, not \<open>Yes\<close>/\<open>Low\<close>.
\<close>

theorem analyze_empty_string_counterexample:
  "scan [] = Some \<lparr>strongPositive = [], moderatePositive = [],
                   strongNegative = [], moderateNegative = []\<rparr>
   \<and> map_option status (analyze (JString [])) = Some Unclear
   \<and> map_option status (analyze (JString [])) \<noteq> Some Yes"
  by code_simp

text \<open>
  C2.  \<open>analyze\<close> returns a verdict on every input (it has no path that raises), and
  on every input that is not a non-empty string (\<open>null\<close>, \<open>undefined\<close>, the empty
  string, a value of another type) the verdict has status \<open>Unclear\<close>, confidence
  \<open>Low\<close> and no matched keywords.
\<close>

theorem analyze_unusable_input:
  "(\<exists>r. analyze v = Some r) \<and>
   (\<not> usable v \<longrightarrow>
      (\<exists>r. analyze v = Some r \<and> status r = Unclear \<and> confidence r = Low
           \<and> matchedKeywords r = []))"
  using analyze_total [of v] analyze_unusable [of v] by (simp add: no_description_def)

theorem analyze_unusable_input_witness:
  "\<not> usable JNull \<and> \<not> usable (JString []) \<and> \<not> usable (JNumber 7)
   \<and> (\<exists>r. analyze JNull = Some r \<and> status r = Unclear \<and> confidence r = Low
           \<and> matchedKeywords r = [])
   \<and> (\<exists>r. analyze (JString []) = Some r \<and> status r = Unclear \<and> confidence r = Low
           \<and> matchedKeywords r = [])
   \<and> (\<exists>r. analyze (JNumber 7) = Some r \<and> status r = Unclear \<and> confidence r = Low
           \<and> matchedKeywords r = [])"
  using analyze_unusable_input [of JNull] analyze_unusable_input [of "JString []"]
    analyze_unusable_input [of "JNumber 7"]
  by simp

text \<open>
  C3, as amended.  A match (of any pattern, at index \<open>i\<close>) is negated exactly when, in
  the lower-cased 50 code units before it, a negation cue has a match that ends at most
  20 code units before the match start with no full stop in between.  The matches of
  the two positive tiers that are negated are left out of \<open>strongPositive\<close> and
  \<open>moderatePositive\<close>; the two negative tiers keep every match; and the verdict of
  \<open>analyze\<close> takes its \<open>details\<close>, its \<open>matchedKeywords\<close>, its status and its
  confidence from these lists, so a negated positive match counts for none of them.  In
  particular a match is negated whenever the lower-cased context before it ends with
  the word \<open>no\<close> (at the start of the context or after a non-word code unit) followed
  by white space only, as the positive phrase inside \<open>No sponsorship available\<close> is.
\<close>

theorem negation_suppression:
  "(isNegated t i l \<longleftrightarrow> cue_in_sentence 20 (contextBefore t i))
   \<and> surviving t ms =
       map m_text (filter (\<lambda>m. \<not> cue_in_sentence 20 (contextBefore t (m_index m))) ms)
   \<and> (\<exists>sps mps sns mns d r.
         found STRONG_POSITIVE_PATTERNS t sps \<and> found MODERATE_POSITIVE_PATTERNS t mps
       \<and> found STRONG_NEGATIVE_PATTERNS t sns \<and> found MODERATE_NEGATIVE_PATTERNS t mns
       \<and> d = \<lparr>strongPositive = concat (map (surviving t) sps),
               moderatePositive = concat (map (surviving t) mps),
               strongNegative = concat (map (map m_text) sns),
               moderateNegative = concat (map (map m_text) mns)\<rparr>
       \<and> analyze (JString t) = Some r
       \<and> matchedKeywords r = first_occurrences (strongPositive d @ moderatePositive d
                                                 @ strongNegative d @ moderateNegative d)
       \<and> (t \<noteq> [] \<longrightarrow> details r = Some d
             \<and> (status r, confidence r) =
                 (if strongPositive d \<noteq> [] then (Yes, High)
                  else if strongNegative d \<noteq> [] then (No, High)
                  else if moderatePositive d \<noteq> [] then (Yes, Medium)
                  else if moderateNegative d \<noteq> [] then (No, Medium)
                  else (Yes, Low))))
   \<and> (contextBefore t i = u @ ''no'' @ w \<and> w \<noteq> [] \<and> (\<forall>x \<in> set w. is_space x)
        \<and> (u = [] \<or> \<not> is_word (last u))
        \<longrightarrow> isNegated t i l)"
proof (intro conjI)
  show "isNegated t i l \<longleftrightarrow> cue_in_sentence 20 (contextBefore t i)"
    by (rule isNegated_iff)
  show "surviving t ms =
       map m_text (filter (\<lambda>m. \<not> cue_in_sentence 20 (contextBefore t (m_index m))) ms)"
    by (simp add: surviving_def isNegated_iff)
  show "\<exists>sps mps sns mns d r.
         found STRONG_POSITIVE_PATTERNS t sps \<and> found MODERATE_POSITIVE_PATTERNS t mps
       \<and> found STRONG_NEGATIVE_PATTERNS t sns \<and> found MODERATE_NEGATIVE_PATTERNS t mns
       \<and> d = \<lparr>strongPositive = concat (map (surviving t) sps),
               moderatePositive = concat (map (surviving t) mps),
               strongNegative = concat (map (map m_text) sns),
               moderateNegative = concat (map (map m_text) mns)\<rparr>
       \<and> analyze (JString t) = Some r
       \<and> matchedKeywords r = first_occurrences (strongPositive d @ moderatePositive d
                                                 @ strongNegative d @ moderateNegative d)
       \<and> (t \<noteq> [] \<longrightarrow> details r = Some d
             \<and> (status r, confidence r) =
                 (if strongPositive d \<noteq> [] then (Yes, High)
                  else if strongNegative d \<noteq> [] then (No, High)
                  else if moderatePositive d \<noteq> [] then (Yes, Medium)
                  else if moderateNegative d \<noteq> [] then (No, Medium)
                  else (Yes, Low)))"
    by (rule analyze_found)
  show "contextBefore t i = u @ ''no'' @ w \<and> w \<noteq> [] \<and> (\<forall>x \<in> set w. is_space x)
        \<and> (u = [] \<or> \<not> is_word (last u))
        \<longrightarrow> isNegated t i l"
    using negated_when_context_ends_in_no by blast
qed

theorem negation_suppression_witness:
  "findMatches (phrase [''sponsorship'', ''available'']) ''No sponsorship available''
     = Some [\<lparr>m_text = ''sponsorship available'', m_index = 3, m_length = 21\<rparr>]
   \<and> contextBefore ''No sponsorship available'' 3 = ''no ''
   \<and> isNegated ''No sponsorship available'' 3 21
   \<and> cue_in_sentence 20 (contextBefore ''No sponsorship available'' 3)
   \<and> (\<exists>r. analyze (JString ''No sponsorship available'') = Some r
         \<and> details r = Some \<lparr>strongPositive = [], moderatePositive = [],
                             strongNegative = [''No sponsorship''], moderateNegative = []\<rparr>
         \<and> matchedKeywords r = [''No sponsorship'']
         \<and> status r = No \<and> confidence r = High)"
proof -
  have f: "findMatches (phrase [''sponsorship'', ''available'']) ''No sponsorship available''
     = Some [\<lparr>m_text = ''sponsorship available'', m_index = 3, m_length = 21\<rparr>]"
    by code_simp
  have c: "contextBefore ''No sponsorship available'' 3 = ''no ''"
    using context_no_sponsorship_available by simp
  have h: "contextBefore ''No sponsorship available'' 3 = [] @ ''no'' @ '' ''
           \<and> '' '' \<noteq> [] \<and> (\<forall>x \<in> set '' ''. is_space x)
           \<and> ([] = [] \<or> \<not> is_word (last []))"
    using context_no_sponsorship_available by (simp add: is_space_def)
  note inst = negation_suppression [of "''No sponsorship available''" 3 21 "[]" "[]" "'' ''"]
  have e: "isNegated ''No sponsorship available'' 3 21
            \<longleftrightarrow> cue_in_sentence 20 (contextBefore ''No sponsorship available'' 3)"
    by (rule inst [THEN conjunct1])
  have n: "isNegated ''No sponsorship available'' 3 21"
    using inst [THEN conjunct2, THEN conjunct2, THEN conjunct2] h by blast
  from n e have k: "cue_in_sentence 20 (contextBefore ''No sponsorship available'' 3)"
    by blast
  define d where "d = \<lparr>strongPositive = [], moderatePositive = [],
                       strongNegative = [''No sponsorship''], moderateNegative = []\<rparr>"
  have a: "analyze (JString ''No sponsorship available'') = Some (result d)"
    by (simp add: scan_no_sponsorship_available d_def)
  have "details (result d) = Some \<lparr>strongPositive = [], moderatePositive = [],
                             strongNegative = [''No sponsorship''], moderateNegative = []\<rparr>"
    by (simp add: result_details d_def)
  moreover have "matchedKeywords (result d) = [''No sponsorship'']"
    by (simp add: result_matchedKeywords new_Set_def set_add_def d_def)
  moreover have "status (result d) = No" "confidence (result d) = High"
    by (simp_all add: result_status result_confidence d_def)
  ultimately have "\<exists>r. analyze (JString ''No sponsorship available'') = Some r
         \<and> details r = Some \<lparr>strongPositive = [], moderatePositive = [],
                             strongNegative = [''No sponsorship''], moderateNegative = []\<rparr>
         \<and> matchedKeywords r = [''No sponsorship'']
         \<and> status r = No \<and> confidence r = High"
    using a by blast
  with f c n k show ?thesis by blast
qed

text \<open>
  C3, as stated, at \<open>not relocate. visa sponsorship\<close>: the cue \<open>not\<close> ends ten code
  units before the StrongPositive match \<open>visa sponsorship\<close>, inside the window, but a
  full stop lies between them; the match is not suppressed and decides the status.
  And at \<open>no\<close>, 49 spaces, \<open>sponsorship available\<close>: the rule \<open>\bno\s+sponsorship\b\<close>
  matches, but the 50 code units before \<open>sponsorship available\<close> start at the \<open>o\<close>, no
  cue matches in them, and the positive match counts.
\<close>

theorem negation_cue_across_full_stop_counterexample:
  "findMatches (phrase [''visa'', ''sponsorship'']) ''not relocate. visa sponsorship''
     = Some [\<lparr>m_text = ''visa sponsorship'', m_index = 14, m_length = 16\<rparr>]
   \<and> contextBefore ''not relocate. visa sponsorship'' 14 = ''not relocate. ''
   \<and> cue_within 20 (contextBefore ''not relocate. visa sponsorship'' 14)
   \<and> \<not> isNegated ''not relocate. visa sponsorship'' 14 16
   \<and> map_option strongPositive (scan ''not relocate. visa sponsorship'')
     = Some [''visa sponsorship'']
   \<and> map_option status (analyze (JString ''not relocate. visa sponsorship'')) = Some Yes
   \<and> findMatches (phrase [''no'', ''sponsorship''])
       (''no'' @ replicate 49 CHR '' '' @ ''sponsorship available'')
     = Some [\<lparr>m_text = ''no'' @ replicate 49 CHR '' '' @ ''sponsorship'',
              m_index = 0, m_length = 62\<rparr>]
   \<and> findMatches (phrase [''sponsorship'', ''available''])
       (''no'' @ replicate 49 CHR '' '' @ ''sponsorship available'')
     = Some [\<lparr>m_text = ''sponsorship available'', m_index = 51, m_length = 21\<rparr>]
   \<and> contextBefore (''no'' @ replicate 49 CHR '' '' @ ''sponsorship available'') 51
     = ''o'' @ replicate 49 CHR '' ''
   \<and> \<not> isNegated (''no'' @ replicate 49 CHR '' '' @ ''sponsorship available'') 51 21
   \<and> map_option strongPositive
       (scan (''no'' @ replicate 49 CHR '' '' @ ''sponsorship available''))
     = Some [''sponsorship available'']
   \<and> map_option status
       (analyze (JString (''no'' @ replicate 49 CHR '' '' @ ''sponsorship available'')))
     = Some Yes"
proof -
  have "findMatches (phrase [''visa'', ''sponsorship'']) ''not relocate. visa sponsorship''
     = Some [\<lparr>m_text = ''visa sponsorship'', m_index = 14, m_length = 16\<rparr>]"
    by code_simp
  moreover have "contextBefore ''not relocate. visa sponsorship'' 14 = ''not relocate. ''"
    by code_simp
  moreover have "cue_within 20 (contextBefore ''not relocate. visa sponsorship'' 14)"
    by code_simp
  moreover have "\<not> isNegated ''not relocate. visa sponsorship'' 14 16"
    by code_simp
  moreover have "map_option strongPositive (scan ''not relocate. visa sponsorship'')
     = Some [''visa sponsorship'']"
    by (simp add: scan_not_relocate)
  moreover have "map_option status (analyze (JString ''not relocate. visa sponsorship'')) = Some Yes"
    by (simp add: scan_not_relocate result_status)
  moreover have "findMatches (phrase [''no'', ''sponsorship''])
       (''no'' @ replicate 49 CHR '' '' @ ''sponsorship available'')
     = Some [\<lparr>m_text = ''no'' @ replicate 49 CHR '' '' @ ''sponsorship'',
              m_index = 0, m_length = 62\<rparr>]"
    by code_simp
  moreover have "findMatches (phrase [''sponsorship'', ''available''])
       (''no'' @ replicate 49 CHR '' '' @ ''sponsorship available'')
     = Some [\<lparr>m_text = ''sponsorship available'', m_index = 51, m_length = 21\<rparr>]"
    by code_simp
  moreover have "contextBefore (''no'' @ replicate 49 CHR '' '' @ ''sponsorship available'') 51
     = ''o'' @ replicate 49 CHR '' ''"
    by code_simp
  moreover have "\<not> isNegated (''no'' @ replicate 49 CHR '' '' @ ''sponsorship available'') 51 21"
    by code_simp
  moreover have "map_option strongPositive
       (scan (''no'' @ replicate 49 CHR '' '' @ ''sponsorship available''))
     = Some [''sponsorship available'']"
    by (simp only: scan_no_49_spaces option.map details.simps)
  moreover have "map_option status
       (analyze (JString (''no'' @ replicate 49 CHR '' '' @ ''sponsorship available'')))
     = Some Yes"
  proof -
    have "''no'' @ replicate 49 CHR '' '' @ ''sponsorship available'' \<noteq> []" by simp
    then have "analyze (JString (''no'' @ replicate 49 CHR '' '' @ ''sponsorship available''))
         = map_option result (scan (''no'' @ replicate 49 CHR '' '' @ ''sponsorship available''))"
      by (simp only: analyze.simps if_False)
    then show ?thesis
      by (simp only: scan_no_49_spaces option.map result_status details.simps) simp
  qed
  ultimately show ?thesis by blast
qed

text \<open>
  C4.  Every phrase of the verdict's evidence is a verbatim substring of the input: each
  element of \<open>matchedKeywords\<close>, each element of the four \<open>details\<close> lists, and the
  phrase the highlighter cites (\<open>matchedPhrases[0]\<close>).  The highlighter's read of
  \<open>details\<close> never raises on a verdict of \<open>analyze\<close>.  When the status is \<open>No\<close>, the
  cited phrase is the first match of the tier that decided: \<open>strongNegative\<close> at
  confidence \<open>High\<close>, \<open>moderateNegative\<close> otherwise.  In particular, when no
  StrongPositive match survives and there is a StrongNegative match, the verdict is
  \<open>No\<close>/\<open>High\<close> and the cited phrase is the first StrongNegative match.
\<close>

theorem evidence_verbatim_substrings:
  "\<exists>r. analyze (JString t) = Some r
     \<and> (\<forall>k \<in> set (matchedKeywords r). sublist k t)
     \<and> (\<forall>d. details r = Some d \<longrightarrow>
           (\<forall>k \<in> set (strongPositive d @ moderatePositive d
                        @ strongNegative d @ moderateNegative d). sublist k t))
     \<and> firstMatch r \<noteq> Inl TypeError
     \<and> (\<forall>ph. firstMatch r = Inr (Some ph) \<longrightarrow> sublist ph t)
     \<and> (status r = No \<longrightarrow>
           (\<exists>d ph rest. details r = Some d \<and> firstMatch r = Inr (Some ph)
              \<and> (if confidence r = High then strongNegative d else moderateNegative d)
                  = ph # rest))
     \<and> (\<forall>d ph rest. details r = Some d \<and> strongPositive d = []
              \<and> strongNegative d = ph # rest \<longrightarrow>
           status r = No \<and> confidence r = High \<and> firstMatch r = Inr (Some ph)
           \<and> sublist ph t)"
proof (cases t rule: analyze_cases)
  case 1
  then show ?thesis by (simp add: no_description_def firstMatch_def)
next
  case (2 sps mps sns mns d)
  have sub: "\<forall>k \<in> set (strongPositive d @ moderatePositive d
                        @ strongNegative d @ moderateNegative d). sublist k t"
  proof -
    have "\<And>k. k \<in> set (strongPositive d) \<Longrightarrow> sublist k t"
      using surviving_sublist [OF 2(2)] by (simp only: 2(6) details.simps)
    moreover have "\<And>k. k \<in> set (moderatePositive d) \<Longrightarrow> sublist k t"
      using surviving_sublist [OF 2(3)] by (simp only: 2(6) details.simps)
    moreover have "\<And>k. k \<in> set (strongNegative d) \<Longrightarrow> sublist k t"
      using all_sublist [OF 2(4)] by (simp only: 2(6) details.simps)
    moreover have "\<And>k. k \<in> set (moderateNegative d) \<Longrightarrow> sublist k t"
      using all_sublist [OF 2(5)] by (simp only: 2(6) details.simps)
    ultimately show ?thesis by auto
  qed
  have kw: "\<forall>k \<in> set (matchedKeywords (result d)). sublist k t"
    using sub by (simp add: result_matchedKeywords set_new_Set)
  have fm: "\<forall>ph. firstMatch (result d) = Inr (Some ph) \<longrightarrow> sublist ph t"
    using sub by (auto simp: firstMatch_result split: if_splits)
  show ?thesis
  proof (rule exI [of _ "result d"], intro conjI)
    show "analyze (JString t) = Some (result d)" by (rule 2(7))
    show "\<forall>k \<in> set (matchedKeywords (result d)). sublist k t" by (rule kw)
    show "\<forall>d'. details (result d) = Some d' \<longrightarrow>
           (\<forall>k \<in> set (strongPositive d' @ moderatePositive d'
                        @ strongNegative d' @ moderateNegative d'). sublist k t)"
      using sub by (simp add: result_details)
    show "firstMatch (result d) \<noteq> Inl TypeError"
      by (simp add: firstMatch_result)
    show "\<forall>ph. firstMatch (result d) = Inr (Some ph) \<longrightarrow> sublist ph t"
      by (rule fm)
    show "status (result d) = No \<longrightarrow>
           (\<exists>d' ph rest. details (result d) = Some d' \<and> firstMatch (result d) = Inr (Some ph)
              \<and> (if confidence (result d) = High then strongNegative d' else moderateNegative d')
                  = ph # rest)"
    proof
      assume n: "status (result d) = No"
      show "\<exists>d' ph rest. details (result d) = Some d' \<and> firstMatch (result d) = Inr (Some ph)
              \<and> (if confidence (result d) = High then strongNegative d' else moderateNegative d')
                  = ph # rest"
      proof (cases "strongNegative d")
        case Nil
        with n obtain ph rest where "moderateNegative d = ph # rest"
          by (cases "moderateNegative d") (auto simp: result_status split: if_splits)
        with n Nil show ?thesis
          by (auto simp: result_details firstMatch_result result_status result_confidence
                split: if_splits)
      next
        case (Cons ph rest)
        with n show ?thesis
          by (auto simp: result_details firstMatch_result result_status result_confidence
                split: if_splits)
      qed
    qed
    show "\<forall>d' ph rest. details (result d) = Some d' \<and> strongPositive d' = []
              \<and> strongNegative d' = ph # rest \<longrightarrow>
           status (result d) = No \<and> confidence (result d) = High
           \<and> firstMatch (result d) = Inr (Some ph) \<and> sublist ph t"
      using sub by (auto simp: result_details firstMatch_result result_status result_confidence)
  qed
qed

theorem evidence_verbatim_substrings_witness:
  "\<exists>r. analyze (JString ''No sponsorship available'') = Some r
     \<and> details r = Some \<lparr>strongPositive = [], moderatePositive = [],
                         strongNegative = [''No sponsorship''], moderateNegative = []\<rparr>
     \<and> matchedKeywords r = [''No sponsorship'']
     \<and> status r = No \<and> confidence r = High
     \<and> firstMatch r = Inr (Some ''No sponsorship'')
     \<and> sublist ''No sponsorship'' ''No sponsorship available''"
proof -
  define d where "d = \<lparr>strongPositive = [], moderatePositive = [],
                       strongNegative = [''No sponsorship''], moderateNegative = []\<rparr>"
  have a: "analyze (JString ''No sponsorship available'') = Some (result d)"
    by (simp add: scan_no_sponsorship_available d_def)
  from evidence_verbatim_substrings [of "''No sponsorship available''"]
  obtain r where r: "analyze (JString ''No sponsorship available'') = Some r"
    "\<forall>d' ph rest. details r = Some d' \<and> strongPositive d' = []
              \<and> strongNegative d' = ph # rest \<longrightarrow>
           status r = No \<and> confidence r = High
           \<and> firstMatch r = Inr (Some ph)
           \<and> sublist ph ''No sponsorship available''"
    by blast
  from r(1) a have "r = result d" by (simp only: option.inject)
  with r(2) have "\<forall>d' ph rest. details (result d) = Some d' \<and> strongPositive d' = []
              \<and> strongNegative d' = ph # rest \<longrightarrow>
           status (result d) = No \<and> confidence (result d) = High
           \<and> firstMatch (result d) = Inr (Some ph)
           \<and> sublist ph ''No sponsorship available''"
    by simp
  then have "status (result d) = No \<and> confidence (result d) = High
           \<and> firstMatch (result d) = Inr (Some ''No sponsorship'')
           \<and> sublist ''No sponsorship'' ''No sponsorship available''"
    by (simp add: result_details d_def)
  moreover have "matchedKeywords (result d) = [''No sponsorship'']"
    by (simp add: result_matchedKeywords new_Set_def set_add_def d_def)
  moreover have "details (result d) = Some \<lparr>strongPositive = [], moderatePositive = [],
                         strongNegative = [''No sponsorship''], moderateNegative = []\<rparr>"
    by (simp add: result_details d_def)
  ultimately show ?thesis using a by blast
qed

text \<open>
  C5.  In the verdict of every string, status \<open>Yes\<close> together with a non-empty
  \<open>strongNegative\<close> list occurs only with a non-empty \<open>strongPositive\<close> list, and then
  the confidence is \<open>High\<close>, the confidence of the strong positive tier; so a non-empty
  \<open>strongNegative\<close> list with an empty \<open>strongPositive\<close> list never has status \<open>Yes\<close>.
\<close>

theorem strong_negative_invariant:
  "\<exists>r. analyze (JString t) = Some r \<and>
     (\<forall>d. details r = Some d \<longrightarrow>
        (status r = Yes \<and> strongNegative d \<noteq> [] \<longrightarrow>
           strongPositive d \<noteq> [] \<and> confidence r = High)
        \<and> (strongNegative d \<noteq> [] \<and> strongPositive d = [] \<longrightarrow> status r \<noteq> Yes))"
proof (cases "t = []")
  case True
  then show ?thesis by (simp add: no_description_def)
next
  case False
  from scan_total [of t] obtain d where d: "scan t = Some d" ..
  with False have "analyze (JString t) = Some (result d)" by simp
  moreover have "details (result d) = Some d" by (rule result_details)
  ultimately show ?thesis by (simp add: result_status result_confidence)
qed

theorem strong_negative_invariant_witness:
  "\<exists>r d. analyze (JString ''will sponsor. ITAR eligible'') = Some r
     \<and> details r = Some d \<and> strongNegative d = [''ITAR eligible'']
     \<and> status r = Yes \<and> strongPositive d = [''will sponsor''] \<and> confidence r = High"
proof -
  define d where "d = \<lparr>strongPositive = [''will sponsor''], moderatePositive = [],
                       strongNegative = [''ITAR eligible''], moderateNegative = []\<rparr>"
  have a: "analyze (JString ''will sponsor. ITAR eligible'') = Some (result d)"
    by (simp add: scan_sponsor_and_itar d_def)
  have s: "status (result d) = Yes" by (simp add: result_status d_def)
  have dd: "details (result d) = Some d" by (rule result_details)
  have sn: "strongNegative d = [''ITAR eligible'']" by (simp add: d_def)
  from strong_negative_invariant [of "''will sponsor. ITAR eligible''"]
  obtain r where r: "analyze (JString ''will sponsor. ITAR eligible'') = Some r"
    "\<forall>d. details r = Some d \<longrightarrow>
        (status r = Yes \<and> strongNegative d \<noteq> [] \<longrightarrow>
           strongPositive d \<noteq> [] \<and> confidence r = High)
        \<and> (strongNegative d \<noteq> [] \<and> strongPositive d = [] \<longrightarrow> status r \<noteq> Yes)"
    by blast
  from r(1) a have "r = result d" by (simp only: option.inject)
  with r(2) dd s sn have "strongPositive d \<noteq> [] \<and> confidence (result d) = High" by simp
  moreover have "strongPositive d = [''will sponsor'']" by (simp add: d_def)
  ultimately show ?thesis using a s dd sn by blast
qed

text \<open>
  C6.  \<open>matchedKeywords\<close> has no two equal phrases, and it is the concatenation of the
  surviving StrongPositive matches, the surviving ModeratePositive matches, the
  StrongNegative matches and the ModerateNegative matches (each tier pattern by pattern
  in catalogue order, each pattern's matches from left to right without overlap) with
  every phrase kept at its first occurrence only.
\<close>

theorem matchedKeywords_dedup_catalogue_order:
  "\<exists>sps mps sns mns r.
      found STRONG_POSITIVE_PATTERNS t sps \<and> found MODERATE_POSITIVE_PATTERNS t mps
    \<and> found STRONG_NEGATIVE_PATTERNS t sns \<and> found MODERATE_NEGATIVE_PATTERNS t mns
    \<and> analyze (JString t) = Some r
    \<and> matchedKeywords r =
        first_occurrences (concat (map (surviving t) sps) @ concat (map (surviving t) mps)
                           @ concat (map (map m_text) sns) @ concat (map (map m_text) mns))
    \<and> distinct (matchedKeywords r)
    \<and> (\<forall>ms \<in> set (sps @ mps @ sns @ mns).
          sorted_wrt (\<lambda>a b. m_index a + m_length a \<le> m_index b) ms)"
proof -
  from scan_found [of t] obtain sps mps sns mns where
    f: "found STRONG_POSITIVE_PATTERNS t sps" "found MODERATE_POSITIVE_PATTERNS t mps"
       "found STRONG_NEGATIVE_PATTERNS t sns" "found MODERATE_NEGATIVE_PATTERNS t mns"
    and sc: "scan t = Some \<lparr>strongPositive = concat (map (surviving t) sps),
                      moderatePositive = concat (map (surviving t) mps),
                      strongNegative = concat (map (map m_text) sns),
                      moderateNegative = concat (map (map m_text) mns)\<rparr>"
    by blast
  have asc: "\<forall>ms \<in> set (sps @ mps @ sns @ mns).
          sorted_wrt (\<lambda>a b. m_index a + m_length a \<le> m_index b) ms"
    using found_ascending [OF f(1)] found_ascending [OF f(2)]
      found_ascending [OF f(3)] found_ascending [OF f(4)] by auto
  have "\<exists>r. analyze (JString t) = Some r
    \<and> matchedKeywords r =
        first_occurrences (concat (map (surviving t) sps) @ concat (map (surviving t) mps)
                           @ concat (map (map m_text) sns) @ concat (map (map m_text) mns))
    \<and> distinct (matchedKeywords r)"
  proof (cases "t = []")
    case True
    have "concat sps = []" "concat mps = []" "concat sns = []" "concat mns = []"
      using f found_empty_text STRONG_POSITIVE_min_len MODERATE_POSITIVE_min_len
        STRONG_NEGATIVE_min_len MODERATE_NEGATIVE_min_len unfolding True by blast+
    then have "concat (map (surviving t) sps) = []" "concat (map (surviving t) mps) = []"
      "concat (map (map m_text) sns) = []" "concat (map (map m_text) mns) = []"
      by (simp_all add: concat_nothing surviving_def)
    then show ?thesis using True
      by (simp add: no_description_def first_occurrences_def)
  next
    case False
    with sc show ?thesis
      by (simp add: result_matchedKeywords new_Set_first_occurrences [symmetric]
            distinct_new_Set)
  qed
  with f asc show ?thesis by blast
qed

theorem matchedKeywords_dedup_catalogue_order_witness:
  "\<exists>r. analyze (JString ''TN visa, TN visa'') = Some r
     \<and> details r = Some \<lparr>strongPositive = [''TN visa'', ''TN visa''], moderatePositive = [],
                         strongNegative = [], moderateNegative = []\<rparr>
     \<and> matchedKeywords r = [''TN visa'']
     \<and> distinct (matchedKeywords r)"
proof -
  define d where "d = \<lparr>strongPositive = [''TN visa'', ''TN visa''], moderatePositive = [],
                       strongNegative = [], moderateNegative = []\<rparr>"
  have a: "analyze (JString ''TN visa, TN visa'') = Some (result d)"
    by (simp add: scan_tn_visa_twice d_def)
  from matchedKeywords_dedup_catalogue_order [of "''TN visa, TN visa''"]
  obtain r where "analyze (JString ''TN visa, TN visa'') = Some r" "distinct (matchedKeywords r)"
    by blast
  with a have "distinct (matchedKeywords (result d))" by (simp only: option.inject)
  moreover have "matchedKeywords (result d) = [''TN visa'']"
    by (simp add: result_matchedKeywords new_Set_def set_add_def d_def)
  moreover have "details (result d) = Some \<lparr>strongPositive = [''TN visa'', ''TN visa''],
      moderatePositive = [], strongNegative = [], moderateNegative = []\<rparr>"
    by (simp add: result_details d_def)
  ultimately show ?thesis using a by blast
qed

text \<open>
  C7, as amended.  If the stored job id, the stored fingerprint and the presence of the
  badge are all unchanged, an unforced \<open>processJobPage\<close> does nothing: no effect, and
  the stored state is returned as it was.  If moreover the monitor is not busy, the page
  is a job page and the description is extractable, the unforced call classifies if and
  only if the job id differs, or the fingerprint differs, or the badge is absent; and
  when it classifies it stores the current job id and fingerprint.
\<close>

theorem unforced_change_detection:
  "(\<not> changed st pg \<longrightarrow> processJobPage False st pg = Some (st, []))
   \<and> (\<not> isProcessing st \<and> isLinkedInJobPage pg \<and> \<not> no_text (description pg) \<longrightarrow>
        (reclassified (processJobPage False st pg) \<longleftrightarrow> changed st pg)
        \<and> (changed st pg \<longrightarrow>
             (\<exists>out. processJobPage False st pg = Some out
                \<and> currentJobId (fst out) = jobId pg
                \<and> currentJobDescriptionHash (fst out) = hashJobDescription (description pg))))"
proof (intro conjI impI)
  assume "\<not> changed st pg"
  then show "processJobPage False st pg = Some (st, [])" by (rule processJobPage_unchanged)
next
  assume a: "\<not> isProcessing st \<and> isLinkedInJobPage pg \<and> \<not> no_text (description pg)"
  then obtain t where t: "description pg = Some t" "t \<noteq> []"
    by (auto simp: no_text_def split: option.splits)
  show "reclassified (processJobPage False st pg) \<longleftrightarrow> changed st pg"
  proof
    assume r: "reclassified (processJobPage False st pg)"
    show "changed st pg"
    proof (rule ccontr)
      assume "\<not> changed st pg"
      then have "processJobPage False st pg = Some (st, [])" by (rule processJobPage_unchanged)
      with r show False by (simp add: reclassified_def)
    qed
  next
    assume "changed st pg"
    with processJobPage_classifies [of False st pg t] a t
    show "reclassified (processJobPage False st pg)"
      by (auto simp: reclassified_def simp del: analyze.simps)
  qed
next
  assume a: "\<not> isProcessing st \<and> isLinkedInJobPage pg \<and> \<not> no_text (description pg)"
    and c: "changed st pg"
  then obtain t where t: "description pg = Some t" "t \<noteq> []"
    by (auto simp: no_text_def split: option.splits)
  with processJobPage_classifies [of False st pg t] a c
  show "\<exists>out. processJobPage False st pg = Some out
                \<and> currentJobId (fst out) = jobId pg
                \<and> currentJobDescriptionHash (fst out) = hashJobDescription (description pg)"
    by (auto simp del: analyze.simps)
qed


theorem unforced_change_detection_witness:
  "\<not> isProcessing \<lparr>currentJobId = Some ''111'', currentJobDescriptionHash = Some ''Old text|8'',
                    isProcessing = False\<rparr>
   \<and> isLinkedInJobPage \<lparr>isLinkedInJobPage = True, jobId = Some ''111'',
                         description = Some ''New text'', badge = True\<rparr>
   \<and> \<not> no_text (description \<lparr>isLinkedInJobPage = True, jobId = Some ''111'',
                         description = Some ''New text'', badge = True\<rparr>)
   \<and> changed \<lparr>currentJobId = Some ''111'', currentJobDescriptionHash = Some ''Old text|8'',
                    isProcessing = False\<rparr>
        \<lparr>isLinkedInJobPage = True, jobId = Some ''111'',
                         description = Some ''New text'', badge = True\<rparr>
   \<and> reclassified (processJobPage False
        \<lparr>currentJobId = Some ''111'', currentJobDescriptionHash = Some ''Old text|8'',
                    isProcessing = False\<rparr>
        \<lparr>isLinkedInJobPage = True, jobId = Some ''111'',
                         description = Some ''New text'', badge = True\<rparr>)
   \<and> \<not> changed \<lparr>currentJobId = Some ''111'', currentJobDescriptionHash = Some ''New text|8'',
                    isProcessing = False\<rparr>
        \<lparr>isLinkedInJobPage = True, jobId = Some ''111'',
                         description = Some ''New text'', badge = True\<rparr>
   \<and> \<not> reclassified (processJobPage False
        \<lparr>currentJobId = Some ''111'', currentJobDescriptionHash = Some ''New text|8'',
                    isProcessing = False\<rparr>
        \<lparr>isLinkedInJobPage = True, jobId = Some ''111'',
                         description = Some ''New text'', badge = True\<rparr>)"
proof -
  have h: "hashJobDescription (Some ''New text'') = Some ''New text|8''"
    by code_simp
  have c1: "changed \<lparr>currentJobId = Some ''111'', currentJobDescriptionHash = Some ''Old text|8'',
                    isProcessing = False\<rparr>
        \<lparr>isLinkedInJobPage = True, jobId = Some ''111'',
                         description = Some ''New text'', badge = True\<rparr>"
    by (simp add: changed_def h)
  have c2: "\<not> changed \<lparr>currentJobId = Some ''111'', currentJobDescriptionHash = Some ''New text|8'',
                    isProcessing = False\<rparr>
        \<lparr>isLinkedInJobPage = True, jobId = Some ''111'',
                         description = Some ''New text'', badge = True\<rparr>"
    by (simp add: changed_def h)
  show ?thesis
    using c1 c2
      unforced_change_detection [of "\<lparr>currentJobId = Some ''111'',
          currentJobDescriptionHash = Some ''Old text|8'', isProcessing = False\<rparr>"
        "\<lparr>isLinkedInJobPage = True, jobId = Some ''111'',
                         description = Some ''New text'', badge = True\<rparr>"]
      unforced_change_detection [of "\<lparr>currentJobId = Some ''111'',
          currentJobDescriptionHash = Some ''New text|8'', isProcessing = False\<rparr>"
        "\<lparr>isLinkedInJobPage = True, jobId = Some ''111'',
                         description = Some ''New text'', badge = True\<rparr>"]
    by (simp add: no_text_def reclassified_def)
qed


text \<open>
  C7, as stated: the job id differs from the stored one, and no classification happens
  when the description is not extractable (a retry is scheduled instead), when the page
  is not a job page, or when the monitor is busy.
\<close>

theorem unforced_change_detection_counterexample:
  "changed \<lparr>currentJobId = Some ''111'', currentJobDescriptionHash = None, isProcessing = False\<rparr>
           \<lparr>isLinkedInJobPage = True, jobId = Some ''222'', description = None, badge = True\<rparr>
   \<and> \<not> reclassified (processJobPage False
           \<lparr>currentJobId = Some ''111'', currentJobDescriptionHash = None, isProcessing = False\<rparr>
           \<lparr>isLinkedInJobPage = True, jobId = Some ''222'', description = None, badge = True\<rparr>)
   \<and> changed \<lparr>currentJobId = Some ''111'', currentJobDescriptionHash = None, isProcessing = False\<rparr>
           \<lparr>isLinkedInJobPage = False, jobId = Some ''222'', description = Some ''New text'',
            badge = True\<rparr>
   \<and> \<not> reclassified (processJobPage False
           \<lparr>currentJobId = Some ''111'', currentJobDescriptionHash = None, isProcessing = False\<rparr>
           \<lparr>isLinkedInJobPage = False, jobId = Some ''222'', description = Some ''New text'',
            badge = True\<rparr>)
   \<and> changed \<lparr>currentJobId = Some ''111'', currentJobDescriptionHash = None, isProcessing = True\<rparr>
           \<lparr>isLinkedInJobPage = True, jobId = Some ''222'', description = Some ''New text'',
            badge = True\<rparr>
   \<and> \<not> reclassified (processJobPage False
           \<lparr>currentJobId = Some ''111'', currentJobDescriptionHash = None, isProcessing = True\<rparr>
           \<lparr>isLinkedInJobPage = True, jobId = Some ''222'', description = Some ''New text'',
            badge = True\<rparr>)"
  by (simp add: changed_def reclassified_def processJobPage_def no_text_def hashJobDescription_def)







text \<open>
  C9, as amended.  The fingerprints of two non-empty texts are equal exactly when the
  texts have the same length and the same trimmed first 200 code units.  Hence two
  different texts of at most 200 code units without white space at either end (as the
  extraction returns them) have different fingerprints.
\<close>

theorem fingerprint_prefix_and_length:
  assumes "a \<noteq> []" and "b \<noteq> []"
  shows "(hashJobDescription (Some a) = hashJobDescription (Some b)
           \<longleftrightarrow> length a = length b \<and> trim (substring a 0 200) = trim (substring b 0 200))
       \<and> (length a \<le> 200 \<and> length b \<le> 200 \<and> trim a = a \<and> trim b = b
            \<and> hashJobDescription (Some a) = hashJobDescription (Some b) \<longrightarrow> a = b)"
proof -
  have 1: "hashJobDescription (Some a) = hashJobDescription (Some b)
           \<longleftrightarrow> length a = length b \<and> trim (substring a 0 200) = trim (substring b 0 200)"
    using assms by (rule hash_eq_iff)
  have "a = b" if "length a \<le> 200" "length b \<le> 200" "trim a = a" "trim b = b"
    "hashJobDescription (Some a) = hashJobDescription (Some b)"
  proof -
    from that(1,2) have "substring a 0 200 = a" "substring b 0 200 = b"
      by (simp_all add: substring_def)
    with 1 that(3,4,5) show ?thesis by simp
  qed
  with 1 show ?thesis by blast
qed


theorem fingerprint_prefix_and_length_witness:
  "''Visa sponsorship offered'' \<noteq> [] \<and> ''Visa sponsorship refused'' \<noteq> []
   \<and> length ''Visa sponsorship offered'' = length ''Visa sponsorship refused''
   \<and> hashJobDescription (Some ''Visa sponsorship offered'')
       \<noteq> hashJobDescription (Some ''Visa sponsorship refused'')"
proof -
  have a: "''Visa sponsorship offered'' \<noteq> []" and b: "''Visa sponsorship refused'' \<noteq> []"
    by simp_all
  have t: "trim (substring ''Visa sponsorship offered'' 0 200)
           \<noteq> trim (substring ''Visa sponsorship refused'' 0 200)"
    by (simp add: trim_def substring_def is_space_def)
  from fingerprint_prefix_and_length [OF a b] t
  have "hashJobDescription (Some ''Visa sponsorship offered'')
       \<noteq> hashJobDescription (Some ''Visa sponsorship refused'')" by blast
  with a b show ?thesis by simp
qed


text \<open>
  C9, as stated: two different non-empty texts of 201 code units that differ only in
  the last one have the same fingerprint.
\<close>

theorem fingerprint_collision_counterexample:
  "replicate 200 CHR ''x'' @ ''a'' \<noteq> replicate 200 CHR ''x'' @ ''b''
   \<and> replicate 200 CHR ''x'' @ ''a'' \<noteq> [] \<and> replicate 200 CHR ''x'' @ ''b'' \<noteq> []
   \<and> hashJobDescription (Some (replicate 200 CHR ''x'' @ ''a''))
     = hashJobDescription (Some (replicate 200 CHR ''x'' @ ''b''))"
  by (simp add: hashJobDescription_def substring_def)


text \<open>
  C10.  \<open>analyze\<close> returns status \<open>Unclear\<close> exactly on the inputs that are not a
  non-empty string; on every non-empty string the status is \<open>Yes\<close> or \<open>No\<close>.
\<close>

theorem unclear_only_for_unusable_input:
  "\<exists>r. analyze v = Some r \<and> (status r = Unclear \<longleftrightarrow> \<not> usable v)
       \<and> (usable v \<longrightarrow> status r = Yes \<or> status r = No)"
proof (cases "usable v")
  case True
  then obtain t where t: "v = JString t" "t \<noteq> []" by (cases v) simp_all
  from scan_total [of t] obtain d where "scan t = Some d" ..
  with t have "analyze v = Some (result d)" by simp
  moreover have "status (result d) = Yes \<or> status (result d) = No"
    by (simp add: result_status)
  ultimately show ?thesis using True by auto
next
  case False
  then show ?thesis by (simp add: analyze_unusable no_description_def)
qed

theorem unclear_only_for_unusable_input_witness:
  "usable (JString ''x'') \<and>
   (\<exists>r. analyze (JString ''x'') = Some r \<and> (status r = Unclear \<longleftrightarrow> \<not> usable (JString ''x''))
       \<and> (status r = Yes \<or> status r = No))"
  using unclear_only_for_unusable_input [of "JString ''x''"] by simp

end
